theory Spec2Isabelle
  imports Main "HOL-Library.AList"
begin

section \<open>CMIP6 batch download engine (ee\_download\_async.py)\<close>

text \<open>
  The development embeds the asynchronous downloader of the repository: the per-record
  path computation and skip pre-check inside \<open>export_cmip6_collection_parallel\<close>, the
  single-item fetcher \<open>download_cmip6_image\<close> with its retry loop, the batch loop of
  \<open>export_cmip6_collection_parallel\<close>, and the per-variable driver \<open>getCMIP6_async\<close>.

  Everything outside the program is an explicit parameter or an explicit state:
  \<^item> the Earth Engine client, the HTTP layer and the operating system calls that can
    raise are fields of an environment record \<open>env\<close>, each returning either a value
    or the error it raises;
  \<^item> the file system (path to file content) and the sequence of observable effects
    (HTTP requests, sleeps, file writes) form the record \<open>world\<close>, passed through
    every call and returned updated;
  \<^item> Python exceptions are values of the type \<open>error\<close>; a function that can raise
    returns a sum with \<open>Inl\<close> for the exception.
  Strings are byte strings; only ASCII digits count as digits.
\<close>

subsection \<open>Python values and library functions used by the program\<close>

datatype error =
  KeyError | TypeError | ValueError | IndexError | OSError | EEException | ClientError
  | RuntimeError

text \<open>A property value of a catalog record, as decoded from JSON: null, an integer or a string.\<close>

datatype pval = PNone | PInt int | PStr string

definition digit_char :: "nat \<Rightarrow> char" where
  "digit_char d = ''0123456789'' ! (d mod 10)"

fun str_nat :: "nat \<Rightarrow> string" where
  "str_nat n = (if n < 10 then [digit_char n] else str_nat (n div 10) @ [digit_char (n mod 10)])"

declare str_nat.simps [simp del]

definition str_int :: "int \<Rightarrow> string" where
  "str_int i = (if i < 0 then CHR ''-'' # str_nat (nat (- i)) else str_nat (nat i))"

text \<open>\<open>str(v)\<close>, as an f-string formats a property value.\<close>

fun str_pval :: "pval \<Rightarrow> string" where
  "str_pval PNone = ''None''"
| "str_pval (PInt i) = str_int i"
| "str_pval (PStr s) = s"

definition isdigit_char :: "char \<Rightarrow> bool" where
  "isdigit_char c = (c \<in> set ''0123456789'')"

text \<open>\<open>s.isdigit()\<close>: false on the empty string.\<close>

definition isdigit :: "string \<Rightarrow> bool" where
  "isdigit s = (s \<noteq> [] \<and> list_all isdigit_char s)"

definition digit_val :: "char \<Rightarrow> nat" where
  "digit_val c = (of_char c - 48) mod 10"

definition nat_of_digits :: "string \<Rightarrow> nat" where
  "nat_of_digits s = foldl (\<lambda>acc c. 10 * acc + digit_val c) 0 s"

text \<open>\<open>s.split(sep)\<close> for a one-character separator: every occurrence splits, empty
  fields are kept, and the empty string gives one empty field.\<close>

fun split_on :: "char \<Rightarrow> string \<Rightarrow> string list" where
  "split_on sep [] = [[]]"
| "split_on sep (c # cs) =
     (if c = sep then [] # split_on sep cs
      else (case split_on sep cs of
              [] \<Rightarrow> [[c]]
            | p # ps \<Rightarrow> (c # p) # ps))"

text \<open>\<open>s.replace(a, b)\<close> for single characters.\<close>

definition replace_char :: "char \<Rightarrow> char \<Rightarrow> string \<Rightarrow> string" where
  "replace_char a b s = map (\<lambda>c. if c = a then b else c) s"

text \<open>\<open>os.path.join(a, b)\<close> and \<open>os.path.dirname(p)\<close> of posixpath.\<close>

definition path_join :: "string \<Rightarrow> string \<Rightarrow> string" where
  "path_join a b =
     (if b \<noteq> [] \<and> hd b = CHR ''/'' then b
      else if a = [] \<or> last a = CHR ''/'' then a @ b
      else a @ ''/'' @ b)"

definition rstrip_slash :: "string \<Rightarrow> string" where
  "rstrip_slash s = rev (dropWhile (\<lambda>c. c = CHR ''/'') (rev s))"

definition dirname :: "string \<Rightarrow> string" where
  "dirname p =
     (let head = rev (dropWhile (\<lambda>c. c \<noteq> CHR ''/'') (rev p))
      in if head \<noteq> [] \<and> \<not> list_all (\<lambda>c. c = CHR ''/'') head then rstrip_slash head else head)"

subsection \<open>Calendar dates\<close>

record date =
  year :: nat
  month :: nat
  day :: nat

definition is_leap :: "nat \<Rightarrow> bool" where
  "is_leap y = (y mod 4 = 0 \<and> (y mod 100 \<noteq> 0 \<or> y mod 400 = 0))"

definition days_in_month :: "nat \<Rightarrow> nat \<Rightarrow> nat" where
  "days_in_month y m =
     (if m = 2 then (if is_leap y then 29 else 28)
      else if m = 4 \<or> m = 6 \<or> m = 9 \<or> m = 11 then 30 else 31)"

text \<open>
  \<open>datetime.strptime(part, '%Y%m%d')\<close> on a string of eight ASCII digits. The format's
  fields take four, two and two digits; a month outside 01..12, a day outside the month,
  or the year 0000 raises \<open>ValueError\<close>.
\<close>

definition strptime_ymd :: "string \<Rightarrow> error + date" where
  "strptime_ymd s =
     (let y = nat_of_digits (take 4 s);
          m = nat_of_digits (take 2 (drop 4 s));
          d = nat_of_digits (drop 6 s)
      in if length s = 8 \<and> isdigit s \<and> 1 \<le> y \<and> 1 \<le> m \<and> m \<le> 12 \<and> 1 \<le> d \<and> d \<le> days_in_month y m
         then Inr \<lparr>year = y, month = m, day = d\<rparr>
         else Inl ValueError)"

definition zero_pad :: "nat \<Rightarrow> string \<Rightarrow> string" where
  "zero_pad w s = replicate (w - length s) (CHR ''0'') @ s"

text \<open>\<open>d.strftime('%Y-%m-%d')\<close>, the year padded to four digits.\<close>

definition strftime_ymd :: "date \<Rightarrow> string" where
  "strftime_ymd d =
     zero_pad 4 (str_nat (year d)) @ ''-'' @ zero_pad 2 (str_nat (month d)) @ ''-''
       @ zero_pad 2 (str_nat (day d))"

text \<open>
  The proleptic Gregorian date of a day number counted from 1970-01-01, by eras of 400
  years. The result's year is an integer: it leaves the range of \<open>datetime\<close> for
  remote instants.
\<close>

definition civil_from_days :: "int \<Rightarrow> int \<times> nat \<times> nat" where
  "civil_from_days z =
     (let z' = z + 719468;
          era = z' div 146097;
          doe = z' mod 146097;
          yoe = (doe - doe div 1460 + doe div 36524 - doe div 146096) div 365;
          y = yoe + era * 400;
          doy = doe - (365 * yoe + yoe div 4 - yoe div 100);
          mp = (5 * doy + 2) div 153;
          d = doy - (153 * mp + 2) div 5 + 1;
          m = (if mp < 10 then mp + 3 else mp - 9)
      in (if m \<le> 2 then y + 1 else y, nat m, nat d))"

text \<open>
  \<open>datetime.fromtimestamp(timestamp / 1000)\<close> for an integer timestamp in
  milliseconds: the local calendar date of the instant. The local offset from UTC (in
  seconds, at a given epoch second) is the environment's; years outside 1..9999 raise.
\<close>

definition fromtimestamp_ms :: "(int \<Rightarrow> int) \<Rightarrow> int \<Rightarrow> error + date" where
  "fromtimestamp_ms utcoffset ms =
     (let secs = ms div 1000;
          (y, m, d) = civil_from_days ((secs + utcoffset secs) div 86400)
      in if 1 \<le> y \<and> y \<le> 9999 then Inr \<lparr>year = nat y, month = m, day = d\<rparr>
         else Inl ValueError)"

subsection \<open>Catalog records and the path computation (lines 117-154)\<close>

text \<open>
  One element of \<open>coll.getInfo()['features']\<close>: \<open>img_id\<close> is \<open>img_info['id']\<close>
  (absent when the key is missing), \<open>img_properties\<close> is the \<open>properties\<close> entry.
\<close>

record img_info =
  img_id :: "string option"
  img_properties :: "(string \<rightharpoonup> pval) option"

text \<open>\<open>img_info.get('properties', {})\<close>\<close>

definition properties_of :: "img_info \<Rightarrow> (string \<rightharpoonup> pval)" where
  "properties_of info = (case img_properties info of None \<Rightarrow> Map.empty | Some m \<Rightarrow> m)"

text \<open>
  Lines 132-139: the first part of the identifier that has eight digits and parses as a
  date; a part that does not parse is passed over.
\<close>

fun first_date_token :: "string list \<Rightarrow> string option" where
  "first_date_token [] = None"
| "first_date_token (part # parts) =
     (if length part = 8 \<and> isdigit part then
        (case strptime_ymd part of
           Inr d \<Rightarrow> Some (strftime_ymd d)
         | Inl e \<Rightarrow> first_date_token parts)
      else first_date_token parts)"

text \<open>
  Lines 126-139. Dividing a property that is not a number by 1000 raises \<open>TypeError\<close>.
  The identifier is searched only under \<open>elif 'system:index' in properties\<close>.
\<close>

definition extract_date :: "(int \<Rightarrow> int) \<Rightarrow> string \<Rightarrow> (string \<rightharpoonup> pval) \<Rightarrow> error + string option" where
  "extract_date tz image_id properties =
     (case properties ''system:time_start'' of
        Some v \<Rightarrow>
          (case v of
             PInt timestamp \<Rightarrow>
               (case fromtimestamp_ms tz timestamp of
                  Inl e \<Rightarrow> Inl e
                | Inr d \<Rightarrow> Inr (Some (strftime_ymd d)))
           | _ \<Rightarrow> Inl TypeError)
      | None \<Rightarrow>
          (if properties ''system:index'' \<noteq> None
           then Inr (first_date_token (split_on (CHR ''_'') image_id))
           else Inr None))"

text \<open>Lines 141-142: \<open>if not date_str\<close> holds for \<open>None\<close> and for the empty string.\<close>

definition date_or_fallback :: "string option \<Rightarrow> nat \<Rightarrow> string" where
  "date_or_fallback date_str n =
     (case date_str of
        None \<Rightarrow> ''image_'' @ str_nat n
      | Some s \<Rightarrow> if s = [] then ''image_'' @ str_nat n else s)"

text \<open>Lines 146-150.\<close>

definition model_scenario :: "(string \<rightharpoonup> pval) \<Rightarrow> string" where
  "model_scenario properties =
     (case properties ''model'' of
        Some v \<Rightarrow> str_pval v
      | None \<Rightarrow>
          (case properties ''scenario'' of
             Some v \<Rightarrow> ''CMIP6'' @ ''_'' @ str_pval v
           | None \<Rightarrow> ''CMIP6''))"

text \<open>Lines 152-153.\<close>

definition sanitize :: "string \<Rightarrow> string" where
  "sanitize filename = replace_char (CHR '':'') (CHR ''_'') (replace_char (CHR ''/'') (CHR ''_'') filename)"

definition make_filename :: "string \<Rightarrow> string \<Rightarrow> string" where
  "make_filename tag date_str = sanitize (tag @ ''_'' @ date_str @ ''.tif'')"

text \<open>
  The path computation for the record at position \<open>i\<close> of the batch starting at
  \<open>batch_start\<close>: the image identifier, the file name and the destination path, or
  the exception that leaves the loop.
\<close>

definition plan_path ::
  "(int \<Rightarrow> int) \<Rightarrow> string \<Rightarrow> nat \<Rightarrow> nat \<Rightarrow> img_info \<Rightarrow> error + (string \<times> string \<times> string)" where
  "plan_path tz path batch_start i info =
     (case img_id info of
        None \<Rightarrow> Inl KeyError
      | Some image_id \<Rightarrow>
          (case extract_date tz image_id (properties_of info) of
             Inl e \<Rightarrow> Inl e
           | Inr date_str \<Rightarrow>
               (let filename = make_filename (model_scenario (properties_of info))
                                 (date_or_fallback date_str (batch_start + i))
                in Inr (image_id, filename, path_join path filename))))"

subsection \<open>The environment and the world\<close>

text \<open>
  The result of one \<open>session.get(url)\<close>: the request raises, or a response arrives
  with a status and a body whose \<open>read()\<close> raises or returns the content.
\<close>

datatype http_result = HttpRaises error | HttpResponse nat "error + string"

text \<open>
  The collaborators. Each Earth Engine call is keyed by the image identifier (the
  geometry and scale are fixed for a run); \<open>http_get n url\<close> is the result of the
  \<open>n\<close>-th request of the run when it asks for \<open>url\<close>.
\<close>

record env =
  utcoffset :: "int \<Rightarrow> int"
  image_getInfo :: "string \<Rightarrow> error option"
  image_date :: "string \<Rightarrow> error option"
  band_names :: "string \<Rightarrow> error + string list"
  download_url :: "string \<Rightarrow> string \<Rightarrow> error + string"
  makedirs :: "string \<Rightarrow> error option"
  open_wb :: "string \<Rightarrow> error option"
  http_get :: "nat \<Rightarrow> string \<Rightarrow> http_result"
  coll_size :: "string \<Rightarrow> error + nat"
  coll_getInfo :: "string \<Rightarrow> error + img_info list"
  new_event_loop :: "string \<Rightarrow> error option"
  run_until_complete :: "string \<Rightarrow> error option"

datatype event =
    BatchBegin nat nat
  | SkipExisting string
  | HttpGet string string
  | FileWrite string string
  | Backoff string nat
  | Cooldown nat
  | VariableCooldown nat

text \<open>
  \<open>files\<close> maps a path to the content of the file there; \<open>log\<close> is the sequence of
  effects so far, oldest first; \<open>requests\<close> counts the HTTP requests issued.
\<close>

record world =
  files :: "string \<rightharpoonup> string"
  log :: "event list"
  requests :: nat

definition emit :: "event \<Rightarrow> world \<Rightarrow> world" where
  "emit e w = w\<lparr>log := log w @ [e]\<rparr>"

definition path_exists :: "world \<Rightarrow> string \<Rightarrow> bool" where
  "path_exists w p = (files w p \<noteq> None)"

definition getsize :: "world \<Rightarrow> string \<Rightarrow> error + nat" where
  "getsize w p = (case files w p of None \<Rightarrow> Inl OSError | Some content \<Rightarrow> Inr (length content))"

subsection \<open>The single-item fetcher \<open>download_cmip6_image\<close> (lines 15-77)\<close>

text \<open>
  Lines 27-40, before the retry loop: the metadata, the date, the first band name, the
  download URL and the destination directory. Any of them may raise.
\<close>

definition resolve_download :: "env \<Rightarrow> string \<Rightarrow> string \<Rightarrow> error + string" where
  "resolve_download env image_id download_path =
     (case image_getInfo env image_id of
        Some e \<Rightarrow> Inl e
      | None \<Rightarrow>
     (case image_date env image_id of
        Some e \<Rightarrow> Inl e
      | None \<Rightarrow>
     (case band_names env image_id of
        Inl e \<Rightarrow> Inl e
      | Inr [] \<Rightarrow> Inl IndexError
      | Inr (band # _) \<Rightarrow>
     (case download_url env image_id band of
        Inl e \<Rightarrow> Inl e
      | Inr url \<Rightarrow>
     (case makedirs env (dirname download_path) of
        Some e \<Rightarrow> Inl e
      | None \<Rightarrow> Inr url)))))"

text \<open>
  Lines 46-60, the body of one attempt: \<open>Inr True\<close> is \<open>return True\<close>, \<open>Inr False\<close>
  falls through to line 62, \<open>Inl e\<close> is an exception on its way to line 66. Opening the
  file for writing empties it before the body is read.
\<close>

definition attempt :: "env \<Rightarrow> string \<Rightarrow> string \<Rightarrow> world \<Rightarrow> (error + bool) \<times> world" where
  "attempt env url download_path w =
     (let w1 = (emit (HttpGet download_path url) w)\<lparr>requests := Suc (requests w)\<rparr>
      in case http_get env (requests w) url of
           HttpRaises e \<Rightarrow> (Inl e, w1)
         | HttpResponse status body \<Rightarrow>
             if status = 200 then
               (case open_wb env download_path of
                  Some e \<Rightarrow> (Inl e, w1)
                | None \<Rightarrow>
                    (let w2 = w1\<lparr>files := (files w1)(download_path \<mapsto> [])\<rparr>
                     in case body of
                          Inl e \<Rightarrow> (Inl e, w2)
                        | Inr content \<Rightarrow>
                            (let w3 = (emit (FileWrite download_path content) w2)
                                        \<lparr>files := (files w2)(download_path \<mapsto> content)\<rparr>
                             in if path_exists w3 download_path then
                                  (case getsize w3 download_path of
                                     Inl e \<Rightarrow> (Inl e, w3)
                                   | Inr n \<Rightarrow> (Inr (0 < n), w3))
                                else (Inr False, w3))))
             else (Inr False, w1))"

text \<open>Lines 63-64 and 67-69: the wait after the attempt \<open>retry\<close>, none after the last.\<close>

definition backoff :: "string \<Rightarrow> nat \<Rightarrow> nat \<Rightarrow> world \<Rightarrow> world" where
  "backoff download_path max_retries retry w =
     (if retry < max_retries - 1 then emit (Backoff download_path (2 ^ retry)) w else w)"

text \<open>Lines 44-73: \<open>for retry in range(max_retries)\<close>, over the elements of the range.\<close>

fun retry_loop :: "env \<Rightarrow> string \<Rightarrow> string \<Rightarrow> nat \<Rightarrow> nat list \<Rightarrow> world \<Rightarrow> bool \<times> world" where
  "retry_loop env url download_path max_retries [] w = (False, w)"
| "retry_loop env url download_path max_retries (retry # rest) w =
     (case attempt env url download_path w of
        (Inr True, w1) \<Rightarrow> (True, w1)
      | (Inr False, w1) \<Rightarrow>
          retry_loop env url download_path max_retries rest (backoff download_path max_retries retry w1)
      | (Inl e, w1) \<Rightarrow>
          retry_loop env url download_path max_retries rest (backoff download_path max_retries retry w1))"

definition max_retries :: nat where
  "max_retries = 3"

definition download_cmip6_image :: "env \<Rightarrow> string \<Rightarrow> string \<Rightarrow> world \<Rightarrow> bool \<times> world" where
  "download_cmip6_image env image_id download_path w =
     (case resolve_download env image_id download_path of
        Inl e \<Rightarrow> (False, w)
      | Inr url \<Rightarrow> retry_loop env url download_path max_retries [0..<max_retries] w)"

subsection \<open>The batch orchestrator \<open>export_cmip6_collection_parallel\<close> (lines 80-199)\<close>

record stats =
  total :: nat
  successful :: nat
  failed :: nat

text \<open>A coroutine \<open>download_cmip6_image(image, download_path, geom)\<close>, created and not yet run.\<close>

record task =
  task_image :: string
  task_path :: string

text \<open>
  How a block of the \<open>try\<close> body ends: it runs to its end, it raises (and line 197
  catches), or it never returns.
\<close>

datatype outcome = Normal | Raise error | Hang

text \<open>Lines 157-164, the pre-check: \<open>True\<close> when the record is skipped.\<close>

definition skip_check :: "world \<Rightarrow> string \<Rightarrow> error + bool" where
  "skip_check w download_path =
     (if path_exists w download_path then
        (case getsize w download_path of
           Inl e \<Rightarrow> Inl e
         | Inr file_size \<Rightarrow> Inr (1024 < file_size))
      else Inr False)"

text \<open>
  Lines 116-167: the loop over \<open>enumerate(batch_images)\<close>. A skipped record is counted
  at once and adds no task; an exception leaves with the counters as they are.
\<close>

fun prepare_tasks ::
  "env \<Rightarrow> string \<Rightarrow> nat \<Rightarrow> (nat \<times> img_info) list \<Rightarrow> task list \<Rightarrow> stats \<Rightarrow> world
     \<Rightarrow> (error + task list) \<times> stats \<times> world" where
  "prepare_tasks env path batch_start [] tasks st w = (Inr tasks, st, w)"
| "prepare_tasks env path batch_start ((i, info) # rest) tasks st w =
     (case plan_path (utcoffset env) path batch_start i info of
        Inl e \<Rightarrow> (Inl e, st, w)
      | Inr (image_id, filename, download_path) \<Rightarrow>
          (case skip_check w download_path of
             Inl e \<Rightarrow> (Inl e, st, w)
           | Inr True \<Rightarrow>
               prepare_tasks env path batch_start rest tasks
                 (st\<lparr>successful := successful st + 1\<rparr>) (emit (SkipExisting filename) w)
           | Inr False \<Rightarrow>
               prepare_tasks env path batch_start rest
                 (tasks @ [\<lparr>task_image = image_id, task_path = download_path\<rparr>]) st w))"

text \<open>
  Lines 177-179: the tasks of a batch, awaited together. They are run here one after
  the other in the order of dispatch, which is the schedule of the gate with one permit;
  the results come in the order of the tasks whatever the schedule. A fetch returns a
  truth value; \<open>gather\<close> would hand over an exception as \<open>Inl\<close>.
\<close>

fun run_tasks :: "env \<Rightarrow> task list \<Rightarrow> world \<Rightarrow> (error + bool) list \<times> world" where
  "run_tasks env [] w = ([], w)"
| "run_tasks env (t # ts) w =
     (case download_cmip6_image env (task_image t) (task_path t) w of
        (r, w1) \<Rightarrow> (case run_tasks env ts w1 of (rs, w2) \<Rightarrow> (Inr r # rs, w2)))"

text \<open>Lines 182-189.\<close>

fun count_results :: "(error + bool) list \<Rightarrow> stats \<Rightarrow> stats" where
  "count_results [] st = st"
| "count_results (result # results) st =
     count_results results
       (case result of
          Inl e \<Rightarrow> st\<lparr>failed := failed st + 1\<rparr>
        | Inr True \<Rightarrow> st\<lparr>successful := successful st + 1\<rparr>
        | Inr False \<Rightarrow> st\<lparr>failed := failed st + 1\<rparr>)"

text \<open>
  Lines 170-189. \<open>asyncio.Semaphore\<close> raises \<open>ValueError\<close> on a negative value; with
  no permit at all a non-empty batch waits for ever.
\<close>

definition gather_batch :: "env \<Rightarrow> int \<Rightarrow> task list \<Rightarrow> stats \<Rightarrow> world \<Rightarrow> outcome \<times> stats \<times> world" where
  "gather_batch env max_concurrent tasks st w =
     (if max_concurrent < 0 then (Raise ValueError, st, w)
      else if tasks = [] then (Normal, st, w)
      else if max_concurrent = 0 then (Hang, st, w)
      else (case run_tasks env tasks w of
              (results, w1) \<Rightarrow> (Normal, count_results results st, w1)))"

text \<open>\<open>enumerate(xs)\<close>\<close>

definition enumerate_list :: "'a list \<Rightarrow> (nat \<times> 'a) list" where
  "enumerate_list xs = zip [0..<length xs] xs"

text \<open>Lines 109-193, the body of the loop for one \<open>batch_start\<close>.\<close>

definition process_batch ::
  "env \<Rightarrow> string \<Rightarrow> int \<Rightarrow> nat \<Rightarrow> img_info list \<Rightarrow> nat \<Rightarrow> stats \<Rightarrow> world
     \<Rightarrow> outcome \<times> stats \<times> world" where
  "process_batch env path max_concurrent batch_size images_info batch_start st w =
     (let batch_end = min (batch_start + batch_size) (total st);
          batch_images = take (batch_end - batch_start) (drop batch_start images_info);
          w1 = emit (BatchBegin (batch_start div batch_size + 1)
                       ((total st + batch_size - 1) div batch_size)) w
      in case prepare_tasks env path batch_start (enumerate_list batch_images) [] st w1 of
           (Inl e, st1, w2) \<Rightarrow> (Raise e, st1, w2)
         | (Inr tasks, st1, w2) \<Rightarrow>
             (case gather_batch env max_concurrent tasks st1 w2 of
                (Normal, st2, w3) \<Rightarrow>
                  (Normal, st2, if batch_end < total st then emit (Cooldown 1) w3 else w3)
              | r \<Rightarrow> r))"

fun batch_loop ::
  "env \<Rightarrow> string \<Rightarrow> int \<Rightarrow> nat \<Rightarrow> img_info list \<Rightarrow> nat list \<Rightarrow> stats \<Rightarrow> world
     \<Rightarrow> outcome \<times> stats \<times> world" where
  "batch_loop env path max_concurrent batch_size images_info [] st w = (Normal, st, w)"
| "batch_loop env path max_concurrent batch_size images_info (batch_start # rest) st w =
     (case process_batch env path max_concurrent batch_size images_info batch_start st w of
        (Normal, st1, w1) \<Rightarrow> batch_loop env path max_concurrent batch_size images_info rest st1 w1
      | r \<Rightarrow> r)"

text \<open>
  \<open>range(0, stop, step)\<close> for \<open>stop \<ge> 0\<close>: a zero step raises \<open>ValueError\<close>, a negative
  step gives the empty range.
\<close>

function range_from :: "nat \<Rightarrow> nat \<Rightarrow> nat \<Rightarrow> nat list" where
  "range_from i stop step =
     (if step = 0 \<or> stop \<le> i then [] else i # range_from (i + step) stop step)"
  by pat_completeness auto
termination
  by (relation "measure (\<lambda>(i, stop, step). stop - i)") auto

declare range_from.simps [simp del]

definition py_range :: "nat \<Rightarrow> int \<Rightarrow> error + nat list" where
  "py_range stop step =
     (if step = 0 then Inl ValueError
      else if step < 0 then Inr []
      else Inr (range_from 0 stop (nat step)))"

definition zero_stats :: stats where
  "zero_stats = \<lparr>total = 0, successful = 0, failed = 0\<rparr>"

text \<open>
  Lines 93-195, the \<open>try\<close> body. \<open>coll\<close> is what \<open>coll.getInfo()['features']\<close> gives,
  or the exception it raises.
\<close>

definition export_body ::
  "env \<Rightarrow> error + img_info list \<Rightarrow> string \<Rightarrow> int \<Rightarrow> int \<Rightarrow> world \<Rightarrow> outcome \<times> stats \<times> world" where
  "export_body env coll path max_concurrent batch_size w =
     (case coll of
        Inl e \<Rightarrow> (Raise e, zero_stats, w)
      | Inr images_info \<Rightarrow>
          (let st = zero_stats\<lparr>total := length images_info\<rparr>
           in if total st = 0 then (Normal, st, w)
              else (case py_range (total st) batch_size of
                      Inl e \<Rightarrow> (Raise e, st, w)
                    | Inr starts \<Rightarrow>
                        batch_loop env path max_concurrent (nat batch_size) images_info starts st w)))"

text \<open>
  The function: line 195 returns the counters, line 199 returns them after an
  exception. \<open>None\<close> stands for a call that never returns.
\<close>

definition export_cmip6_collection_parallel ::
  "env \<Rightarrow> error + img_info list \<Rightarrow> string \<Rightarrow> int \<Rightarrow> int \<Rightarrow> world \<Rightarrow> (stats \<times> world) option" where
  "export_cmip6_collection_parallel env coll path max_concurrent batch_size w =
     (case export_body env coll path max_concurrent batch_size w of
        (Hang, st, w1) \<Rightarrow> None
      | (Normal, st, w1) \<Rightarrow> Some (st, w1)
      | (Raise e, st, w1) \<Rightarrow> Some (st, w1))"

text \<open>The defaults of the signature (lines 81-82).\<close>

definition default_max_concurrent :: int where
  "default_max_concurrent = 3"

definition default_batch_size :: int where
  "default_batch_size = 10"

subsection \<open>The variable-level driver \<open>getCMIP6_async\<close> (lines 202-340)\<close>







subsection \<open>The concurrency gate \<open>download_with_semaphore\<close> (lines 170-179)\<close>










subsection \<open>Projections of the log\<close>

fun is_http_get :: "event \<Rightarrow> bool" where
  "is_http_get (HttpGet p url) = True"
| "is_http_get e = False"

text \<open>The delays of the backoff sleeps, in order.\<close>

fun backoff_delays :: "event list \<Rightarrow> nat list" where
  "backoff_delays [] = []"
| "backoff_delays (Backoff p d # es) = d # backoff_delays es"
| "backoff_delays (e # es) = backoff_delays es"

text \<open>The events that name the destination path \<open>p\<close>.\<close>

fun event_path :: "event \<Rightarrow> string option" where
  "event_path (HttpGet p url) = Some p"
| "event_path (FileWrite p content) = Some p"
| "event_path (Backoff p d) = Some p"
| "event_path e = None"

subsection \<open>A concrete run\<close>

text \<open>
  Five records without properties, named \<open>img_0\<close> to \<open>img_4\<close>; a service that
  answers every request for \<open>img_2\<close> with status 500 and every other request with
  status 200 and a body; an empty destination directory.
\<close>

definition scenario_listing :: "img_info list" where
  "scenario_listing =
     map (\<lambda>k. \<lparr>img_id = Some (''img_'' @ str_nat k), img_properties = None\<rparr>) [0..<5]"

definition scenario_env :: env where
  "scenario_env =
     \<lparr>utcoffset = (\<lambda>t. 0),
      image_getInfo = (\<lambda>image_id. None),
      image_date = (\<lambda>image_id. None),
      band_names = (\<lambda>image_id. Inr [''tas'']),
      download_url = (\<lambda>image_id band. Inr (''https://ee/'' @ image_id)),
      makedirs = (\<lambda>d. None),
      open_wb = (\<lambda>p. None),
      http_get = (\<lambda>n url. if url = ''https://ee/img_2'' then HttpResponse 500 (Inr [])
                           else HttpResponse 200 (Inr ''GeoTIFF'')),
      coll_size = (\<lambda>var_code. if var_code = ''pr'' then Inl EEException else Inr 5),
      coll_getInfo = (\<lambda>var_code. Inr scenario_listing),
      new_event_loop = (\<lambda>var_code. None),
      run_until_complete = (\<lambda>var_code. if var_code = ''tasmin'' then Some RuntimeError else None)\<rparr>"

definition empty_world :: world where
  "empty_world = \<lparr>files = Map.empty, log = [], requests = 0\<rparr>"


text \<open>
  An attempt succeeds when its request, the \<open>n\<close>-th of the run, is answered with status
  200, the destination opens for writing, and the body is read and is not empty. Every
  other attempt fails: the request raises, the status is another, \<open>open\<close> raises, reading
  the body raises, or the file written is empty.
\<close>

definition attempt_ok :: "env \<Rightarrow> string \<Rightarrow> string \<Rightarrow> nat \<Rightarrow> bool" where
  "attempt_ok env url download_path n =
     (case http_get env n url of
        HttpRaises e \<Rightarrow> False
      | HttpResponse status body \<Rightarrow>
          status = 200 \<and> open_wb env download_path = None \<and>
          (case body of Inl e \<Rightarrow> False | Inr content \<Rightarrow> content \<noteq> []))"

fun is_backoff :: "event \<Rightarrow> bool" where
  "is_backoff (Backoff p d) = True"
| "is_backoff e = False"

text \<open>
  A service whose first answer has an empty body, whose second answer cannot be read,
  and which answers well from the third request on.
\<close>

definition broken_env :: env where
  "broken_env = scenario_env\<lparr>http_get := (\<lambda>n url.
      if n = 0 then HttpResponse 200 (Inr [])
      else if n = 1 then HttpResponse 200 (Inl ClientError)
      else HttpResponse 200 (Inr ''GeoTIFF''))\<rparr>"

subsection \<open>The orchestrator of the specification\<close>

text \<open>
  The destination plans (image identifier, file name, destination path) of the enumerated
  records for which the path computation raises nothing.
\<close>

definition item_plans ::
  "env \<Rightarrow> string \<Rightarrow> nat \<Rightarrow> (nat \<times> img_info) list \<Rightarrow> (string \<times> string \<times> string) list" where
  "item_plans env path batch_start items =
     List.map_filter
       (\<lambda>(i, info). case plan_path (utcoffset env) path batch_start i info of
                       Inl e \<Rightarrow> None | Inr plan \<Rightarrow> Some plan) items"

text \<open>The path computation raises for none of the enumerated records.\<close>

definition plans_ok :: "env \<Rightarrow> string \<Rightarrow> nat \<Rightarrow> (nat \<times> img_info) list \<Rightarrow> bool" where
  "plans_ok env path batch_start items =
     list_all
       (\<lambda>(i, info). case plan_path (utcoffset env) path batch_start i info of
                       Inl e \<Rightarrow> False | Inr plan \<Rightarrow> True) items"

text \<open>The pre-check of spec 4.1 on a plan: a file is at the destination and has more than 1024 bytes.\<close>

definition precheck_skips :: "world \<Rightarrow> string \<times> string \<times> string \<Rightarrow> bool" where
  "precheck_skips w plan =
     (case plan of (image_id, filename, download_path) \<Rightarrow>
        (case files w download_path of None \<Rightarrow> False | Some content \<Rightarrow> 1024 < length content))"

definition task_of :: "string \<times> string \<times> string \<Rightarrow> task" where
  "task_of plan =
     (case plan of (image_id, filename, download_path) \<Rightarrow>
        \<lparr>task_image = image_id, task_path = download_path\<rparr>)"

definition skip_event :: "string \<times> string \<times> string \<Rightarrow> event" where
  "skip_event plan = (case plan of (image_id, filename, download_path) \<Rightarrow> SkipExisting filename)"

text \<open>
  Spec 4.4, steps 1 to 4, on one slice: the records that the pre-check skips are
  counted as successful and no fetch is made for them; the others are fetched in order;
  a fetch that returns \<open>True\<close> is a success, every other result a failure.
\<close>

definition fold_slice ::
  "env \<Rightarrow> string \<Rightarrow> nat \<Rightarrow> img_info list \<Rightarrow> stats \<Rightarrow> world \<Rightarrow> stats \<times> world" where
  "fold_slice env path batch_start slice st w =
     (let plans = item_plans env path batch_start (enumerate_list slice);
          skipped = filter (precheck_skips w) plans;
          dispatched = filter (\<lambda>plan. \<not> precheck_skips w plan) plans
      in case run_tasks env (map task_of dispatched)
                (w\<lparr>log := log w @ map skip_event skipped\<rparr>) of
           (results, w') \<Rightarrow>
             (st\<lparr>successful := successful st + length skipped
                                  + length (filter (\<lambda>r. r = Inr True) results),
                 failed := failed st + length (filter (\<lambda>r. r \<noteq> Inr True) results)\<rparr>,
              w'))"

text \<open>
  Spec 4.4 over the slices that start at the given positions: each slice is announced,
  folded, and followed by the cooldown of one second unless it ends the listing.
\<close>

fun fold_slices ::
  "env \<Rightarrow> string \<Rightarrow> nat \<Rightarrow> img_info list \<Rightarrow> nat list \<Rightarrow> stats \<Rightarrow> world \<Rightarrow> stats \<times> world" where
  "fold_slices env path batch_size listing [] st w = (st, w)"
| "fold_slices env path batch_size listing (batch_start # rest) st w =
     (let batch_end = min (batch_start + batch_size) (length listing)
      in case fold_slice env path batch_start
                (take (batch_end - batch_start) (drop batch_start listing)) st
                (emit (BatchBegin (batch_start div batch_size + 1)
                         ((length listing + batch_size - 1) div batch_size)) w) of
           (st1, w1) \<Rightarrow>
             fold_slices env path batch_size listing rest st1
               (if batch_end < length listing then emit (Cooldown 1) w1 else w1))"





text \<open>The events that report a skipped record.\<close>

fun is_skip :: "event \<Rightarrow> bool" where
  "is_skip (SkipExisting filename) = True"
| "is_skip e = False"

text \<open>
  A destination that holds, for each of the first two records of the listing, a file
  of more than 1024 bytes.
\<close>

definition full_world :: world where
  "full_world =
     \<lparr>files = [''out/CMIP6_image_0.tif'' \<mapsto> replicate 1025 (CHR ''x''),
               ''out/CMIP6_image_1.tif'' \<mapsto> replicate 4096 (CHR ''x'')],
      log = [], requests = 7\<rparr>"

section \<open>Properties\<close>

subsection \<open>Counting lemmas for the orchestrator\<close>

lemma prepare_tasks_counts:
  "prepare_tasks env path b items tasks st w = (r, st', w') \<Longrightarrow>
   total st' = total st \<and> failed st' = failed st \<and> successful st \<le> successful st' \<and>
   (case r of
      Inr tasks' \<Rightarrow> successful st' + length tasks' = successful st + length tasks + length items
    | Inl e \<Rightarrow> successful st' \<le> successful st + length items)"
proof (induction items arbitrary: tasks st w)
  case Nil
  then show ?case by auto
next
  case (Cons item rest)
  obtain i info where item: "item = (i, info)" by (cases item) auto
  show ?case
  proof (cases "plan_path (utcoffset env) path b i info")
    case (Inl e)
    with Cons.prems item show ?thesis by auto
  next
    case (Inr plan)
    obtain image_id filename download_path where plan: "plan = (image_id, filename, download_path)"
      by (cases plan) auto
    show ?thesis
    proof (cases "skip_check w download_path")
      case (Inl e)
      with Cons.prems Inr plan item show ?thesis by auto
    next
      case skip: (Inr skip)
      show ?thesis
      proof (cases skip)
        case True
        from Cons.prems Inr plan skip True item
        have "prepare_tasks env path b rest tasks
                (st\<lparr>successful := successful st + 1\<rparr>) (emit (SkipExisting filename) w) = (r, st', w')"
          by simp
        from Cons.IH[OF this]
        show ?thesis by (auto split: sum.splits)
      next
        case False
        from Cons.prems Inr plan skip False item
        have "prepare_tasks env path b rest
                (tasks @ [\<lparr>task_image = image_id, task_path = download_path\<rparr>]) st w = (r, st', w')"
          by simp
        from Cons.IH[OF this]
        show ?thesis by (auto split: sum.splits)
      qed
    qed
  qed
qed

lemma run_tasks_length: "run_tasks env ts w = (rs, w') \<Longrightarrow> length rs = length ts"
  by (induction ts arbitrary: w rs w') (auto split: prod.splits)

lemma count_results_total: "total (count_results rs st) = total st"
  by (induction rs arbitrary: st) (auto split: sum.splits bool.splits)

lemma count_results_successful:
  "successful (count_results rs st) = successful st + length (filter (\<lambda>r. r = Inr True) rs)"
  by (induction rs arbitrary: st) (auto split: sum.splits bool.splits)

lemma count_results_failed:
  "failed (count_results rs st) = failed st + length (filter (\<lambda>r. r \<noteq> Inr True) rs)"
  by (induction rs arbitrary: st) (auto split: sum.splits bool.splits)

lemma count_results_sum:
  "successful (count_results rs st) + failed (count_results rs st)
     = successful st + failed st + length rs"
  by (simp add: count_results_successful count_results_failed sum_length_filter_compl add.assoc add.left_commute)

lemma gather_batch_counts:
  "gather_batch env max_concurrent tasks st w = (oc, st', w') \<Longrightarrow>
   total st' = total st \<and>
   (if oc = Normal then successful st' + failed st' = successful st + failed st + length tasks
    else st' = st)"
  by (auto simp: gather_batch_def count_results_total count_results_sum run_tasks_length
           split: if_splits prod.splits)


lemma length_enumerate_list: "length (enumerate_list xs) = length xs"
  by (simp add: enumerate_list_def)

lemma process_batch_counts:
  assumes "process_batch env path max_concurrent batch_size images_info batch_start st w = (oc, st', w')"
    and "total st = length images_info"
  shows "total st' = total st \<and>
         successful st' + failed st' \<le> successful st + failed st + (min (batch_start + batch_size) (total st) - batch_start) \<and>
         (oc = Normal \<longrightarrow> successful st' + failed st'
                 = successful st + failed st + (min (batch_start + batch_size) (total st) - batch_start))"
proof -
  define batch_end where "batch_end = min (batch_start + batch_size) (total st)"
  define batch_images where "batch_images = take (batch_end - batch_start) (drop batch_start images_info)"
  define w1 where "w1 = emit (BatchBegin (batch_start div batch_size + 1)
                       ((total st + batch_size - 1) div batch_size)) w"
  have len: "length batch_images = batch_end - batch_start"
    using assms(2) by (auto simp: batch_images_def batch_end_def)
  obtain r st1 w2 where prep:
    "prepare_tasks env path batch_start (enumerate_list batch_images) [] st w1 = (r, st1, w2)"
    by (metis prod_cases3)
  note pc = prepare_tasks_counts[OF prep]
  show ?thesis
  proof (cases r)
    case (Inl e)
    with assms(1) prep have "oc = Raise e \<and> st' = st1"
      by (simp add: process_batch_def Let_def batch_end_def batch_images_def w1_def)
    with pc Inl len show ?thesis
      by (auto simp: batch_end_def length_enumerate_list)
  next
    case (Inr tasks)
    obtain oc2 st2 w3 where g: "gather_batch env max_concurrent tasks st1 w2 = (oc2, st2, w3)"
      by (metis prod_cases3)
    note gc = gather_batch_counts[OF g]
    from assms(1) prep Inr g have "oc = oc2 \<and> st' = st2"
      by (auto simp: process_batch_def Let_def batch_end_def batch_images_def w1_def split: outcome.splits)
    with pc Inr len gc show ?thesis
      by (auto simp: batch_end_def length_enumerate_list split: if_splits)
  qed
qed

lemma batch_loop_counts:
  "batch_loop env path max_concurrent step images_info (take k (range_from i n step)) st w
     = (oc, st', w') \<Longrightarrow>
   0 < step \<Longrightarrow> n = length images_info \<Longrightarrow> total st = n \<Longrightarrow>
   successful st + failed st = min i n \<Longrightarrow>
   total st' = n \<and> successful st' + failed st' \<le> n \<and>
   (oc = Normal \<longrightarrow> successful st' + failed st' = min (i + k * step) n)"
proof (induction i n step arbitrary: k st w rule: range_from.induct)
  case (1 i n step)
  show ?case
  proof (cases "n \<le> i \<or> k = 0")
    case True
    then have "take k (range_from i n step) = []"
      by (auto simp: range_from.simps[of i])
    with 1(2,4,5,6) True show ?thesis by auto
  next
    case False
    then obtain k' where k: "k = Suc k'" by (cases k) auto
    from False 1(3) have rf: "range_from i n step = i # range_from (i + step) n step"
      by (subst range_from.simps) auto
    obtain oc1 st1 w1 where pb:
      "process_batch env path max_concurrent step images_info i st w = (oc1, st1, w1)"
      by (metis prod_cases3)
    have tot: "total st = length images_info" using 1(4,5) by simp
    note pc = process_batch_counts[OF pb tot]
    have i: "i < n" using False by simp
    show ?thesis
    proof (cases "oc1 = Normal")
      case True
      with 1(2) rf k pb have rest:
        "batch_loop env path max_concurrent step images_info
           (take k' (range_from (i + step) n step)) st1 w1 = (oc, st', w')"
        by simp
      have inv: "successful st1 + failed st1 = min (i + step) n"
        using pc True 1(5,6) i by auto
      have tot1: "total st1 = n" using pc 1(5) by simp
      have "\<not> (step = 0 \<or> n \<le> i)" using 1(3) i by simp
      from 1(1)[OF this rest 1(3) 1(4) tot1 inv]
      show ?thesis by (simp add: k add.assoc)
    next
      case False
      with 1(2) rf k pb have "oc = oc1 \<and> st' = st1"
        by (cases oc1) auto
      with pc False 1(5,6) i show ?thesis by auto
    qed
  qed
qed

lemma export_body_counts:
  assumes "export_body env (Inr images_info) path max_concurrent batch_size w = (oc, st, w')"
    and "0 < batch_size"
  shows "total st = length images_info \<and> successful st + failed st \<le> total st \<and>
         (oc = Normal \<longrightarrow> successful st + failed st = total st)"
proof (cases "images_info = []")
  case True
  with assms show ?thesis by (auto simp: export_body_def zero_stats_def)
next
  case False
  define st0 where "st0 = zero_stats\<lparr>total := length images_info\<rparr>"
  define starts where "starts = range_from 0 (length images_info) (nat batch_size)"
  have bl: "batch_loop env path max_concurrent (nat batch_size) images_info
              (take (length starts) starts) st0 w = (oc, st, w')"
    using assms False
    by (simp add: export_body_def py_range_def Let_def st0_def starts_def)
  have "total st = length images_info \<and> successful st + failed st \<le> length images_info \<and>
        (oc = Normal \<longrightarrow> successful st + failed st
            = min (0 + length starts * nat batch_size) (length images_info))"
    using bl unfolding starts_def
    by (rule batch_loop_counts) (use assms(2) in \<open>simp_all add: st0_def zero_stats_def\<close>)
  moreover have "oc = Normal \<longrightarrow> successful st + failed st = length images_info"
  proof
    assume n: "oc = Normal"
    have "batch_loop env path max_concurrent (nat batch_size) images_info
            (take (Suc (length images_info)) (range_from 0 (length images_info) (nat batch_size)))
            st0 w = (oc, st, w') \<Longrightarrow>
          successful st + failed st
            = min (0 + Suc (length images_info) * nat batch_size) (length images_info)"
      using n batch_loop_counts[of env path max_concurrent "nat batch_size" images_info
          "Suc (length images_info)" 0 "length images_info" st0 w oc st w'] assms(2)
      by (simp add: st0_def zero_stats_def)
    moreover have "length (range_from i n k) \<le> n - i" for i n k :: nat
      by (induction i n k rule: range_from.induct)
         (subst range_from.simps, auto)
    then have "length starts \<le> Suc (length images_info)"
      unfolding starts_def by (metis diff_zero le_SucI)
    then have "take (Suc (length images_info)) starts = starts" by simp
    moreover have "length images_info \<le> Suc (length images_info) * nat batch_size"
      using assms(2) by (cases "nat batch_size") auto
    ultimately show "successful st + failed st = length images_info"
      using bl by (simp add: starts_def)
  qed
  ultimately show ?thesis by simp
qed

subsection \<open>The batch loop as a fold over the slices\<close>

lemma skip_check_precheck:
  "skip_check w download_path = Inr (precheck_skips w (image_id, filename, download_path))"
  by (simp add: skip_check_def precheck_skips_def path_exists_def getsize_def split: option.splits)

lemma precheck_skips_log [simp]:
  "precheck_skips (w\<lparr>log := l\<rparr>) plan = precheck_skips w plan"
  by (simp add: precheck_skips_def split: prod.splits)

lemma precheck_skips_emit [simp]:
  "precheck_skips (emit e w) plan = precheck_skips w plan"
  by (simp add: emit_def)

lemma prepare_tasks_exact:
  "plans_ok env path b items \<Longrightarrow>
   prepare_tasks env path b items tasks st w =
     (Inr (tasks @ map task_of (filter (\<lambda>plan. \<not> precheck_skips w plan) (item_plans env path b items))),
      st\<lparr>successful := successful st
            + length (filter (precheck_skips w) (item_plans env path b items))\<rparr>,
      w\<lparr>log := log w @ map skip_event (filter (precheck_skips w) (item_plans env path b items))\<rparr>)"
proof (induction items arbitrary: tasks st w)
  case Nil
  show ?case by (simp add: item_plans_def map_filter_simps)
next
  case (Cons item rest)
  obtain i info where item: "item = (i, info)" by (cases item) auto
  from Cons.prems item obtain image_id filename download_path where
    plan: "plan_path (utcoffset env) path b i info = Inr (image_id, filename, download_path)"
    and ok: "plans_ok env path b rest"
    by (auto simp: plans_ok_def split: sum.splits)
  have ip: "item_plans env path b ((i, info) # rest)
              = (image_id, filename, download_path) # item_plans env path b rest"
    using plan by (simp add: item_plans_def map_filter_simps)
  note sc = skip_check_precheck[of w download_path image_id filename]
  show ?case
  proof (cases "precheck_skips w (image_id, filename, download_path)")
    case True
    with sc plan item Cons.IH[OF ok,
        of tasks "st\<lparr>successful := successful st + 1\<rparr>" "emit (SkipExisting filename) w"]
    show ?thesis
      by (simp add: ip skip_event_def emit_def)
  next
    case False
    with sc plan item Cons.IH[OF ok,
        of "tasks @ [\<lparr>task_image = image_id, task_path = download_path\<rparr>]" st w]
    show ?thesis
      by (simp add: ip task_of_def)
  qed
qed

lemma count_results_exact:
  "count_results rs st =
     st\<lparr>successful := successful st + length (filter (\<lambda>r. r = Inr True) rs),
        failed := failed st + length (filter (\<lambda>r. r \<noteq> Inr True) rs)\<rparr>"
  by (induction rs arbitrary: st) (auto split: sum.splits bool.splits)

lemma fold_slice_total: "fold_slice env path b slice st w = (st', w') \<Longrightarrow> total st' = total st"
  by (auto simp: fold_slice_def Let_def split: prod.splits)

lemma process_batch_exact:
  assumes ok: "plans_ok env path b
                 (enumerate_list (take (min (b + bs) (total st) - b) (drop b images)))"
    and mc: "0 < max_concurrent"
  shows "process_batch env path max_concurrent bs images b st w =
     (case fold_slice env path b (take (min (b + bs) (total st) - b) (drop b images)) st
             (emit (BatchBegin (b div bs + 1) ((total st + bs - 1) div bs)) w) of
        (st1, w1) \<Rightarrow>
          (Normal, st1, if min (b + bs) (total st) < total st then emit (Cooldown 1) w1 else w1))"
proof -
  define slice where "slice = take (min (b + bs) (total st) - b) (drop b images)"
  define w0 where "w0 = emit (BatchBegin (b div bs + 1) ((total st + bs - 1) div bs)) w"
  define plans where "plans = item_plans env path b (enumerate_list slice)"
  define tasks where "tasks = map task_of (filter (\<lambda>plan. \<not> precheck_skips w0 plan) plans)"
  define st1 where "st1 = st\<lparr>successful := successful st + length (filter (precheck_skips w0) plans)\<rparr>"
  define w1 where "w1 = w0\<lparr>log := log w0 @ map skip_event (filter (precheck_skips w0) plans)\<rparr>"
  have prep: "prepare_tasks env path b (enumerate_list slice) [] st w0 = (Inr tasks, st1, w1)"
    using prepare_tasks_exact[OF ok[folded slice_def], of "[]" st w0]
    by (simp add: tasks_def st1_def w1_def plans_def)
  obtain results w2 where rt: "run_tasks env tasks w1 = (results, w2)"
    by (metis surj_pair)
  have empty: "tasks = [] \<Longrightarrow> results = [] \<and> w2 = w1"
    using rt by simp
  have gb: "gather_batch env max_concurrent tasks st1 w1 = (Normal, count_results results st1, w2)"
    using mc rt empty by (auto simp: gather_batch_def)
  have pb: "process_batch env path max_concurrent bs images b st w =
              (Normal, count_results results st1,
               if min (b + bs) (total st) < total st then emit (Cooldown 1) w2 else w2)"
    unfolding process_batch_def Let_def slice_def[symmetric] w0_def[symmetric]
    by (simp add: prep gb)
  have fs: "fold_slice env path b slice st w0 = (count_results results st1, w2)"
    using rt
    by (simp add: fold_slice_def Let_def plans_def[symmetric] tasks_def[symmetric]
          w1_def[symmetric] count_results_exact st1_def add.assoc)
  show ?thesis
    unfolding slice_def[symmetric] w0_def[symmetric] pb fs by simp
qed

lemma batch_loop_exact:
  assumes "0 < max_concurrent"
  shows "total st = length images \<Longrightarrow>
   \<forall>b \<in> set starts. plans_ok env path b
       (enumerate_list (take (min (b + bs) (length images) - b) (drop b images))) \<Longrightarrow>
   batch_loop env path max_concurrent bs images starts st w =
     (case fold_slices env path bs images starts st w of (st', w') \<Rightarrow> (Normal, st', w'))"
proof (induction starts arbitrary: st w)
  case Nil
  show ?case by simp
next
  case (Cons b rest)
  obtain st1 w1 where fs: "fold_slice env path b
      (take (min (b + bs) (length images) - b) (drop b images)) st
      (emit (BatchBegin (b div bs + 1) ((length images + bs - 1) div bs)) w) = (st1, w1)"
    by (metis surj_pair)
  have t1: "total st1 = length images"
    using fold_slice_total[OF fs] Cons.prems(1) by simp
  have ok: "plans_ok env path b
              (enumerate_list (take (min (b + bs) (total st) - b) (drop b images)))"
    using Cons.prems by simp
  have pb: "process_batch env path max_concurrent bs images b st w =
      (Normal, st1, if min (b + bs) (length images) < length images
                    then emit (Cooldown 1) w1 else w1)"
    using process_batch_exact[OF ok assms, where w = w] fs Cons.prems(1) by simp
  have rest: "\<forall>b \<in> set rest. plans_ok env path b
       (enumerate_list (take (min (b + bs) (length images) - b) (drop b images)))"
    using Cons.prems(2) by simp
  show ?case
    using Cons.IH[OF t1 rest] pb fs by (simp add: Let_def)
qed

lemma plan_path_shift:
  "plan_path tz path b i info = plan_path tz path 0 (b + i) info"
  by (simp add: plan_path_def Let_def split: option.splits sum.splits)

lemma enumerate_list_nth:
  "j < length xs \<Longrightarrow> enumerate_list xs ! j = (j, xs ! j)"
  by (simp add: enumerate_list_def)

lemma plans_ok_slice:
  assumes "plans_ok env path 0 (enumerate_list images)"
  shows "plans_ok env path b (enumerate_list (take k (drop b images)))"
proof -
  have all: "\<And>j. j < length images \<Longrightarrow>
      (case plan_path (utcoffset env) path 0 j (images ! j) of Inl e \<Rightarrow> False | Inr plan \<Rightarrow> True)"
    using assms
    by (simp add: plans_ok_def list_all_length length_enumerate_list enumerate_list_nth)
  show ?thesis
    unfolding plans_ok_def list_all_length
  proof (intro allI impI)
    fix j assume "j < length (enumerate_list (take k (drop b images)))"
    then have j: "j < k" "b + j < length images"
      by (auto simp: length_enumerate_list)
    then have "enumerate_list (take k (drop b images)) ! j = (j, images ! (b + j))"
      by (simp add: enumerate_list_nth)
    moreover from all[OF j(2)]
    have "case plan_path (utcoffset env) path b j (images ! (b + j)) of
            Inl e \<Rightarrow> False | Inr plan \<Rightarrow> True"
      by (simp add: plan_path_shift[of _ _ b j])
    ultimately show "case enumerate_list (take k (drop b images)) ! j of
        (i, info) \<Rightarrow> (case plan_path (utcoffset env) path b i info of
                        Inl e \<Rightarrow> False | Inr plan \<Rightarrow> True)"
      by simp
  qed
qed

lemma export_body_exact:
  assumes "plans_ok env path 0 (enumerate_list images)"
    and "0 < max_concurrent" and "0 < batch_size" and "images \<noteq> []"
  shows "export_body env (Inr images) path max_concurrent batch_size w =
     (case fold_slices env path (nat batch_size) images
             (range_from 0 (length images) (nat batch_size))
             (zero_stats\<lparr>total := length images\<rparr>) w of
        (st', w') \<Rightarrow> (Normal, st', w'))"
  using assms(3,4)
    batch_loop_exact[OF assms(2), of "zero_stats\<lparr>total := length images\<rparr>" images
      "range_from 0 (length images) (nat batch_size)" env path "nat batch_size" w]
    plans_ok_slice[OF assms(1)]
  by (simp add: export_body_def py_range_def Let_def)

subsection \<open>Conservation of the counters\<close>

text \<open>
  Claim C1. Let the \<open>try\<close> body of \<open>export_cmip6_collection_parallel\<close> run on a listing
  with a positive batch size. Then \<open>total\<close> is the length of the listing and
  \<open>successful + failed \<le> total\<close> however the body ends, also when an exception or a
  blocked gate stops it part of the way; when it runs to its end,
  \<open>successful + failed = total\<close>; the same bound holds after any number \<open>k\<close> of
  batches; an empty listing gives three zero counters. When no path computation raises
  and the gate has a permit, the body runs to its end and returns exactly the counters
  and the world of \<open>fold_slices\<close>: in each slice the records that the pre-check skips
  add to \<open>successful\<close> together with the fetches that return \<open>True\<close>, and every other
  fetch adds to \<open>failed\<close>. The pre-check of the program is the one of \<open>precheck_skips\<close>.
  In the count of a batch's results every result that is an exception or \<open>False\<close> adds
  one to \<open>failed\<close>, and every \<open>True\<close> adds one to \<open>successful\<close>.
\<close>

theorem stats_conservation:
  assumes "0 < batch_size"
    and "export_body env (Inr images_info) path max_concurrent batch_size w = (oc, st, w')"
  shows "total st = length images_info
       \<and> successful st + failed st \<le> total st
       \<and> (oc = Normal \<longrightarrow> successful st + failed st = total st)
       \<and> (images_info = [] \<longrightarrow> st = zero_stats)
       \<and> (\<forall>k oc_k st_k w_k.
            batch_loop env path max_concurrent (nat batch_size) images_info
              (take k (range_from 0 (length images_info) (nat batch_size)))
              (zero_stats\<lparr>total := length images_info\<rparr>) w = (oc_k, st_k, w_k)
            \<longrightarrow> successful st_k + failed st_k \<le> total st_k)
       \<and> (plans_ok env path 0 (enumerate_list images_info) \<and> 0 < max_concurrent \<longrightarrow>
            oc = Normal
            \<and> (st, w') = fold_slices env path (nat batch_size) images_info
                           (range_from 0 (length images_info) (nat batch_size))
                           (zero_stats\<lparr>total := length images_info\<rparr>) w)
       \<and> skip_check w0 download_path = Inr (precheck_skips w0 (image_id, filename, download_path))
       \<and> failed (count_results results st0)
            = failed st0 + length (filter (\<lambda>r. r \<noteq> Inr True) results)
       \<and> successful (count_results results st0)
            = successful st0 + length (filter (\<lambda>r. r = Inr True) results)"
proof -
  note eb = export_body_counts[OF assms(2) assms(1)]
  have empty: "images_info = [] \<longrightarrow> st = zero_stats"
    using assms(2) by (auto simp: export_body_def zero_stats_def)
  have inter: "successful st_k + failed st_k \<le> total st_k"
    if "batch_loop env path max_concurrent (nat batch_size) images_info
          (take k (range_from 0 (length images_info) (nat batch_size)))
          (zero_stats\<lparr>total := length images_info\<rparr>) w = (oc_k, st_k, w_k)"
    for k oc_k st_k w_k
    using batch_loop_counts[OF that] assms(1) by (simp add: zero_stats_def)
  have exact: "oc = Normal
            \<and> (st, w') = fold_slices env path (nat batch_size) images_info
                           (range_from 0 (length images_info) (nat batch_size))
                           (zero_stats\<lparr>total := length images_info\<rparr>) w"
    if ok: "plans_ok env path 0 (enumerate_list images_info)" and mc: "0 < max_concurrent"
  proof (cases "images_info = []")
    case True
    with assms(2) show ?thesis
      by (auto simp: export_body_def zero_stats_def range_from.simps[of 0 0])
  next
    case False
    from export_body_exact[OF ok mc assms(1) False, of w] assms(2) show ?thesis
      by (auto split: prod.splits)
  qed
  show ?thesis
    using eb empty inter exact
    by (simp add: count_results_failed count_results_successful skip_check_precheck)
qed

theorem stats_conservation_witness:
  "(0::int) < 2
   \<and> plans_ok scenario_env ''out'' 0 (enumerate_list scenario_listing) \<and> (0::int) < 3
   \<and> (case export_body scenario_env (Inr scenario_listing) ''out'' 3 2 empty_world of
        (oc, st, w') \<Rightarrow> oc = Normal \<and> total st = 5 \<and> successful st + failed st = 5)"
proof -
  obtain oc st w' where
    run: "export_body scenario_env (Inr scenario_listing) ''out'' 3 2 empty_world = (oc, st, w')"
    by (metis prod_cases3)
  have l: "scenario_listing =
     [\<lparr>img_id = Some ''img_0'', img_properties = None\<rparr>,
      \<lparr>img_id = Some ''img_1'', img_properties = None\<rparr>,
      \<lparr>img_id = Some ''img_2'', img_properties = None\<rparr>,
      \<lparr>img_id = Some ''img_3'', img_properties = None\<rparr>,
      \<lparr>img_id = Some ''img_4'', img_properties = None\<rparr>]"
    by (simp add: scenario_listing_def upt_rec str_nat.simps digit_char_def)
  have ok: "plans_ok scenario_env ''out'' 0 (enumerate_list scenario_listing)"
    by (simp add: l plans_ok_def enumerate_list_def upt_rec plan_path_def properties_of_def
          extract_date_def Let_def)
  have len: "length scenario_listing = 5"
    by (simp add: l)
  have c: "oc = Normal \<and> total st = 5 \<and> successful st + failed st = 5"
    using stats_conservation[OF _ run, where ?w0.0 = w' and ?st0.0 = st and results = "[]"] ok len
    by simp
  from ok c show ?thesis
    by (simp add: run)
qed

subsection \<open>The empty listing\<close>

text \<open>
  Claim C8. On an empty listing \<open>export_cmip6_collection_parallel\<close> returns the three
  counters at zero and leaves the world as it was: no batch begins, no request is
  issued, no sleep is made, whatever the permits and the batch size.
\<close>

theorem empty_listing_returns_at_once:
  "export_cmip6_collection_parallel env (Inr []) path max_concurrent batch_size w
     = Some (\<lparr>total = 0, successful = 0, failed = 0\<rparr>, w)"
  by (simp add: export_cmip6_collection_parallel_def export_body_def zero_stats_def)

subsection \<open>Failures before the retry loop\<close>

text \<open>
  Claim C10. When reading the metadata, reading the date, reading the band names (or
  finding none), resolving the download URL or creating the destination directory
  raises, \<open>download_cmip6_image\<close> returns \<open>False\<close> and the world is the one it was
  given: no request has been issued, no backoff sleep made, no file written.
\<close>

theorem download_fails_before_retry_loop:
  assumes "image_getInfo env image_id \<noteq> None \<or> image_date env image_id \<noteq> None
           \<or> (\<exists>e. band_names env image_id = Inl e) \<or> band_names env image_id = Inr []
           \<or> (\<exists>band bands e. band_names env image_id = Inr (band # bands)
                  \<and> download_url env image_id band = Inl e)
           \<or> makedirs env (dirname download_path) \<noteq> None"
  shows "download_cmip6_image env image_id download_path w = (False, w)"
proof -
  from assms have "\<exists>e. resolve_download env image_id download_path = Inl e"
    by (auto simp: resolve_download_def split: option.splits sum.splits list.splits)
  then show ?thesis
    by (auto simp: download_cmip6_image_def)
qed

theorem download_fails_before_retry_loop_witness:
  "band_names (scenario_env\<lparr>band_names := \<lambda>image_id. Inr []\<rparr>) ''img_0'' = Inr []
   \<and> download_cmip6_image (scenario_env\<lparr>band_names := \<lambda>image_id. Inr []\<rparr>) ''img_0''
        ''out/CMIP6_image_0.tif'' empty_world = (False, empty_world)"
  using download_fails_before_retry_loop
          [of "scenario_env\<lparr>band_names := \<lambda>image_id. Inr []\<rparr>" "''img_0''"
              "''out/CMIP6_image_0.tif''" empty_world]
  by simp

subsection \<open>The retry policy of the fetcher\<close>

lemma backoff_delays_append: "backoff_delays (xs @ ys) = backoff_delays xs @ backoff_delays ys"
  by (induction xs rule: backoff_delays.induct) auto

lemma attempt_log:
  "attempt env url p w = (res, w1) \<Longrightarrow>
   \<exists>evs. log w1 = log w @ evs \<and> requests w1 = Suc (requests w)
         \<and> filter is_http_get evs = [HttpGet p url] \<and> backoff_delays evs = []"
  by (auto simp: attempt_def Let_def emit_def path_exists_def getsize_def
           split: http_result.splits if_splits option.splits sum.splits)

lemma backoff_log:
  "log (backoff p m retry w) = log w @ (if retry < m - 1 then [Backoff p (2 ^ retry)] else [])
   \<and> requests (backoff p m retry w) = requests w \<and> files (backoff p m retry w) = files w"
  by (simp add: backoff_def emit_def)

lemma retry_loop_log:
  "retry_loop env url p m rs w = (r, w') \<Longrightarrow>
   \<exists>evs k. log w' = log w @ evs \<and> requests w' = requests w + k
     \<and> length (filter is_http_get evs) = k
     \<and> (if r then 1 \<le> k \<and> k \<le> length rs
              \<and> backoff_delays evs = map (\<lambda>i. 2 ^ i) (filter (\<lambda>i. i < m - 1) (take (k - 1) rs))
         else k = length rs
              \<and> backoff_delays evs = map (\<lambda>i. 2 ^ i) (filter (\<lambda>i. i < m - 1) rs))"
proof (induction rs arbitrary: w)
  case Nil
  then show ?case by auto
next
  case (Cons retry rest)
  obtain res w1 where att: "attempt env url p w = (res, w1)" by (metis surj_pair)
  from attempt_log[OF att] obtain evs1 where e1:
    "log w1 = log w @ evs1" "requests w1 = Suc (requests w)"
    "filter is_http_get evs1 = [HttpGet p url]" "backoff_delays evs1 = []"
    by blast
  show ?case
  proof (cases "res = Inr True")
    case True
    with Cons.prems att have "r" "w' = w1" by auto
    with e1 show ?thesis
      by (intro exI[of _ evs1] exI[of _ 1]) simp
  next
    case False
    define w2 where "w2 = backoff p m retry w1"
    from False Cons.prems att have rest: "retry_loop env url p m rest w2 = (r, w')"
      by (cases res) (auto simp: w2_def split: bool.splits)
    from Cons.IH[OF rest] obtain evs2 k2 where e2:
      "log w' = log w2 @ evs2" "requests w' = requests w2 + k2"
      "length (filter is_http_get evs2) = k2"
      "if r then 1 \<le> k2 \<and> k2 \<le> length rest
              \<and> backoff_delays evs2 = map (\<lambda>i. 2 ^ i) (filter (\<lambda>i. i < m - 1) (take (k2 - 1) rest))
       else k2 = length rest
              \<and> backoff_delays evs2 = map (\<lambda>i. 2 ^ i) (filter (\<lambda>i. i < m - 1) rest)"
      by blast
    define bk where "bk = (if retry < m - 1 then [Backoff p (2 ^ retry)] else [])"
    have l2: "log w2 = log w1 @ bk" "requests w2 = requests w1"
      using backoff_log[of p m retry w1] by (simp_all add: w2_def bk_def)
    have bkd: "backoff_delays bk = map (\<lambda>i. 2 ^ i) (filter (\<lambda>i. i < m - 1) [retry])"
      "filter is_http_get bk = []"
      by (simp_all add: bk_def)
    show ?thesis
    proof (intro exI[of _ "evs1 @ bk @ evs2"] exI[of _ "Suc k2"] conjI)
      show "log w' = log w @ evs1 @ bk @ evs2" using e1 e2 l2 by simp
      show "requests w' = requests w + Suc k2" using e1 e2 l2 by simp
      show "length (filter is_http_get (evs1 @ bk @ evs2)) = Suc k2"
        using e1 e2 bkd by simp
      show "if r then 1 \<le> Suc k2 \<and> Suc k2 \<le> length (retry # rest)
              \<and> backoff_delays (evs1 @ bk @ evs2)
                 = map (\<lambda>i. 2 ^ i) (filter (\<lambda>i. i < m - 1) (take (Suc k2 - 1) (retry # rest)))
            else Suc k2 = length (retry # rest)
              \<and> backoff_delays (evs1 @ bk @ evs2)
                 = map (\<lambda>i. 2 ^ i) (filter (\<lambda>i. i < m - 1) (retry # rest))"
      proof (cases r)
        case True
        with e2(4) obtain j where j: "k2 = Suc j" by (cases k2) auto
        from True e2(4) e1(4) bkd show ?thesis
          by (simp add: backoff_delays_append j)
      next
        case False
        with e2(4) e1(4) bkd show ?thesis
          by (simp add: backoff_delays_append)
      qed
    qed
  qed
qed

lemma range_max_retries: "[0..<max_retries] = [0, 1, 2]"
  by (simp add: max_retries_def upt_rec)

lemma range_three: "[0..<3] = [0, 1, 2::nat]"
  by (simp add: upt_rec)

lemma attempt_not_200:
  assumes "case http_get env (requests w) url of
             HttpRaises e \<Rightarrow> True | HttpResponse status body \<Rightarrow> status \<noteq> 200"
  shows "\<exists>res. attempt env url p w = (res, (emit (HttpGet p url) w)\<lparr>requests := Suc (requests w)\<rparr>)
               \<and> res \<noteq> Inr True"
  using assms by (auto simp: attempt_def Let_def split: http_result.splits)

lemma attempt_200:
  assumes "http_get env (requests w) url = HttpResponse 200 (Inr content)"
    and "content \<noteq> []" and "open_wb env p = None"
  shows "attempt env url p w =
           (Inr True, w\<lparr>log := log w @ [HttpGet p url, FileWrite p content],
                        requests := Suc (requests w),
                        files := (files w)(p \<mapsto> content)\<rparr>)"
  using assms by (simp add: attempt_def Let_def emit_def path_exists_def getsize_def)

lemma retry_step_fail:
  assumes "attempt env url p w = (res, w1)" and "res \<noteq> Inr True"
  shows "retry_loop env url p m (retry # rest) w = retry_loop env url p m rest (backoff p m retry w1)"
  using assms by (cases res) (auto split: bool.splits)

lemma download_all_fail:
  assumes res: "resolve_download env image_id p = Inr url"
    and bad: "\<forall>n. case http_get env n url of
                  HttpRaises e \<Rightarrow> True | HttpResponse status body \<Rightarrow> status \<noteq> 200"
  shows "download_cmip6_image env image_id p w =
           (False, w\<lparr>log := log w @ [HttpGet p url, Backoff p 1, HttpGet p url, Backoff p 2,
                                      HttpGet p url],
                     requests := requests w + 3\<rparr>)"
proof -
  have step: "retry_loop env url p 3 (retry # rest) v
        = retry_loop env url p 3 rest
            (backoff p 3 retry ((emit (HttpGet p url) v)\<lparr>requests := Suc (requests v)\<rparr>))"
    for retry rest v
  proof -
    from bad have "case http_get env (requests v) url of
             HttpRaises e \<Rightarrow> True | HttpResponse status body \<Rightarrow> status \<noteq> 200"
      by blast
    from attempt_not_200[OF this, of p] obtain r where
      "attempt env url p v = (r, (emit (HttpGet p url) v)\<lparr>requests := Suc (requests v)\<rparr>)"
      "r \<noteq> Inr True" by blast
    then show ?thesis by (rule retry_step_fail)
  qed
  show ?thesis
    using res
    by (simp add: download_cmip6_image_def max_retries_def range_three step
                  backoff_def emit_def del: retry_loop.simps(2))
qed

lemma download_first_ok:
  assumes res: "resolve_download env image_id p = Inr url"
    and ok: "http_get env (requests w) url = HttpResponse 200 (Inr content)"
    and "content \<noteq> []" and "open_wb env p = None"
  shows "download_cmip6_image env image_id p w =
           (True, w\<lparr>log := log w @ [HttpGet p url, FileWrite p content],
                    requests := Suc (requests w),
                    files := (files w)(p \<mapsto> content)\<rparr>)"
  using assms
  by (simp add: download_cmip6_image_def max_retries_def range_three attempt_200)

lemma download_raise_then_ok:
  assumes res: "resolve_download env image_id p = Inr url"
    and first: "http_get env (requests w) url = HttpRaises e"
    and ok: "http_get env (Suc (requests w)) url = HttpResponse 200 (Inr content)"
    and "content \<noteq> []" and "open_wb env p = None"
  shows "download_cmip6_image env image_id p w =
           (True, w\<lparr>log := log w @ [HttpGet p url, Backoff p 1, HttpGet p url, FileWrite p content],
                    requests := requests w + 2,
                    files := (files w)(p \<mapsto> content)\<rparr>)"
proof -
  have a1: "attempt env url p w = (Inl e, (emit (HttpGet p url) w)\<lparr>requests := Suc (requests w)\<rparr>)"
    using first by (simp add: attempt_def Let_def)
  show ?thesis
    using res ok assms(4,5)
    by (simp add: download_cmip6_image_def max_retries_def range_three a1 attempt_200
          backoff_def emit_def)
qed

lemma scenario_resolve:
  "resolve_download scenario_env image_id p = Inr (''https://ee/'' @ image_id)"
  by (simp add: resolve_download_def scenario_env_def)

lemma scenario_download_fail:
  "download_cmip6_image scenario_env ''img_2'' p w =
     (False, w\<lparr>log := log w @ [HttpGet p ''https://ee/img_2'', Backoff p 1,
                                HttpGet p ''https://ee/img_2'', Backoff p 2,
                                HttpGet p ''https://ee/img_2''],
               requests := requests w + 3\<rparr>)"
  using download_all_fail[of scenario_env "''img_2''" p "''https://ee/img_2''" w]
  by (simp add: scenario_resolve) (simp add: scenario_env_def)

lemma scenario_download_ok:
  assumes "image_id \<noteq> ''img_2''"
  shows "download_cmip6_image scenario_env image_id p w =
     (True, w\<lparr>log := log w @ [HttpGet p (''https://ee/'' @ image_id), FileWrite p ''GeoTIFF''],
              requests := Suc (requests w),
              files := (files w)(p \<mapsto> ''GeoTIFF'')\<rparr>)"
proof (rule download_first_ok[OF scenario_resolve])
  show "http_get scenario_env (requests w) (''https://ee/'' @ image_id)
          = HttpResponse 200 (Inr ''GeoTIFF'')"
    using assms by (simp add: scenario_env_def)
qed (simp_all add: scenario_env_def)

lemma scenario_listing_eq:
  "scenario_listing =
     [\<lparr>img_id = Some ''img_0'', img_properties = None\<rparr>,
      \<lparr>img_id = Some ''img_1'', img_properties = None\<rparr>,
      \<lparr>img_id = Some ''img_2'', img_properties = None\<rparr>,
      \<lparr>img_id = Some ''img_3'', img_properties = None\<rparr>,
      \<lparr>img_id = Some ''img_4'', img_properties = None\<rparr>]"
  by (simp add: scenario_listing_def upt_rec str_nat.simps digit_char_def)

lemma scenario_prepare:
  assumes "files w = Map.empty"
  shows "prepare_tasks scenario_env ''out'' 0 (enumerate_list scenario_listing) [] st w =
     (Inr [\<lparr>task_image = ''img_0'', task_path = ''out/CMIP6_image_0.tif''\<rparr>,
           \<lparr>task_image = ''img_1'', task_path = ''out/CMIP6_image_1.tif''\<rparr>,
           \<lparr>task_image = ''img_2'', task_path = ''out/CMIP6_image_2.tif''\<rparr>,
           \<lparr>task_image = ''img_3'', task_path = ''out/CMIP6_image_3.tif''\<rparr>,
           \<lparr>task_image = ''img_4'', task_path = ''out/CMIP6_image_4.tif''\<rparr>], st, w)"
  using assms
  by (simp add: scenario_listing_eq enumerate_list_def upt_rec
        plan_path_def properties_of_def extract_date_def date_or_fallback_def
        model_scenario_def make_filename_def sanitize_def replace_char_def path_join_def Let_def
        skip_check_def path_exists_def str_nat.simps digit_char_def)

lemma scenario_b_run:
  "export_cmip6_collection_parallel scenario_env (Inr scenario_listing) ''out''
       default_max_concurrent default_batch_size empty_world
   = Some (\<lparr>total = 5, successful = 4, failed = 1\<rparr>,
           \<lparr>files = [''out/CMIP6_image_0.tif'' \<mapsto> ''GeoTIFF'',
                     ''out/CMIP6_image_1.tif'' \<mapsto> ''GeoTIFF'',
                     ''out/CMIP6_image_3.tif'' \<mapsto> ''GeoTIFF'',
                     ''out/CMIP6_image_4.tif'' \<mapsto> ''GeoTIFF''],
            log = [BatchBegin 1 1,
                   HttpGet ''out/CMIP6_image_0.tif'' ''https://ee/img_0'',
                   FileWrite ''out/CMIP6_image_0.tif'' ''GeoTIFF'',
                   HttpGet ''out/CMIP6_image_1.tif'' ''https://ee/img_1'',
                   FileWrite ''out/CMIP6_image_1.tif'' ''GeoTIFF'',
                   HttpGet ''out/CMIP6_image_2.tif'' ''https://ee/img_2'',
                   Backoff ''out/CMIP6_image_2.tif'' 1,
                   HttpGet ''out/CMIP6_image_2.tif'' ''https://ee/img_2'',
                   Backoff ''out/CMIP6_image_2.tif'' 2,
                   HttpGet ''out/CMIP6_image_2.tif'' ''https://ee/img_2'',
                   HttpGet ''out/CMIP6_image_3.tif'' ''https://ee/img_3'',
                   FileWrite ''out/CMIP6_image_3.tif'' ''GeoTIFF'',
                   HttpGet ''out/CMIP6_image_4.tif'' ''https://ee/img_4'',
                   FileWrite ''out/CMIP6_image_4.tif'' ''GeoTIFF''],
            requests = 7\<rparr>)"
proof -
  have len: "length scenario_listing = 5" by (simp add: scenario_listing_eq)
  have rf: "range_from 0 5 10 = [0]"
    by (simp add: range_from.simps[of 0] range_from.simps[of 10])
  show ?thesis
    by (simp add: export_cmip6_collection_parallel_def export_body_def len py_range_def rf
          default_batch_size_def default_max_concurrent_def zero_stats_def
          process_batch_def Let_def gather_batch_def scenario_prepare
          scenario_download_fail scenario_download_ok emit_def empty_world_def)
qed

lemma download_log:
  assumes "download_cmip6_image env image_id p w = (r, w')"
  shows "\<exists>evs k. log w' = log w @ evs \<and> requests w' = requests w + k
          \<and> length (filter is_http_get evs) = k \<and> k \<le> max_retries
          \<and> backoff_delays evs = map (\<lambda>retry. 2 ^ retry) [0..<(if r then k - 1 else min k 2)]
          \<and> sorted (backoff_delays evs)"
proof (cases "resolve_download env image_id p")
  case (Inl e)
  with assms have "r = False" "w' = w" by (auto simp: download_cmip6_image_def)
  then show ?thesis
    by (intro exI[of _ "[]"] exI[of _ 0]) simp
next
  case (Inr url)
  with assms have "retry_loop env url p 3 [0, 1, 2] w = (r, w')"
    by (simp add: download_cmip6_image_def max_retries_def range_three)
  from retry_loop_log[OF this] obtain evs k where e:
    "log w' = log w @ evs" "requests w' = requests w + k"
    "length (filter is_http_get evs) = k"
    "if r then 1 \<le> k \<and> k \<le> length [0, 1, 2::nat]
              \<and> backoff_delays evs
                  = map (\<lambda>i. 2 ^ i) (filter (\<lambda>i. i < 3 - 1) (take (k - 1) [0, 1, 2]))
     else k = length [0, 1, 2::nat]
              \<and> backoff_delays evs = map (\<lambda>i. 2 ^ i) (filter (\<lambda>i. i < 3 - 1) [0, 1, 2])"
    by blast
  have d: "k \<le> max_retries
      \<and> backoff_delays evs = map (\<lambda>retry. 2 ^ retry) [0..<(if r then k - 1 else min k 2)]
      \<and> sorted (backoff_delays evs)"
  proof (cases r)
    case True
    with e(4) consider "k = 1" | "k = 2" | "k = 3" by force
    then show ?thesis
      using True e(4) by cases (simp_all add: max_retries_def upt_rec)
  next
    case False
    with e(4) show ?thesis by (simp add: max_retries_def upt_rec)
  qed
  with e(1,2,3) show ?thesis by blast
qed

lemma attempt_result:
  "fst (attempt env url p w) = Inr True \<longleftrightarrow> attempt_ok env url p (requests w)"
  by (auto simp: attempt_def attempt_ok_def Let_def emit_def path_exists_def getsize_def
           split: http_result.splits option.splits sum.splits)

lemma attempt_trace:
  "\<exists>evs. log (snd (attempt env url p w)) = log w @ evs
         \<and> requests (snd (attempt env url p w)) = Suc (requests w)
         \<and> filter (\<lambda>ev. is_http_get ev \<or> is_backoff ev) evs = [HttpGet p url]"
  by (auto simp: attempt_def Let_def emit_def path_exists_def getsize_def
           split: http_result.splits if_splits option.splits sum.splits)

lemma retry_loop_ok:
  "attempt_ok env url p (requests w) \<Longrightarrow>
   retry_loop env url p m (retry # rest) w = (True, snd (attempt env url p w))"
  using attempt_result[of env url p w]
  by (cases "attempt env url p w") (auto split: sum.splits bool.splits)

lemma retry_loop_fail:
  "\<not> attempt_ok env url p (requests w) \<Longrightarrow>
   retry_loop env url p m (retry # rest) w
     = retry_loop env url p m rest (backoff p m retry (snd (attempt env url p w)))"
  using attempt_result[of env url p w]
  by (cases "attempt env url p w") (auto split: sum.splits bool.splits)

lemma download_exact:
  assumes res: "resolve_download env image_id p = Inr url"
    and run: "download_cmip6_image env image_id p w = (r, w')"
  shows "\<exists>evs. log w' = log w @ evs \<and>
      (if attempt_ok env url p (requests w) then
         r \<and> requests w' = requests w + 1
         \<and> filter (\<lambda>ev. is_http_get ev \<or> is_backoff ev) evs = [HttpGet p url]
       else if attempt_ok env url p (requests w + 1) then
         r \<and> requests w' = requests w + 2
         \<and> filter (\<lambda>ev. is_http_get ev \<or> is_backoff ev) evs
             = [HttpGet p url, Backoff p 1, HttpGet p url]
       else if attempt_ok env url p (requests w + 2) then
         r \<and> requests w' = requests w + 3
         \<and> filter (\<lambda>ev. is_http_get ev \<or> is_backoff ev) evs
             = [HttpGet p url, Backoff p 1, HttpGet p url, Backoff p 2, HttpGet p url]
       else
         \<not> r \<and> requests w' = requests w + 3
         \<and> filter (\<lambda>ev. is_http_get ev \<or> is_backoff ev) evs
             = [HttpGet p url, Backoff p 1, HttpGet p url, Backoff p 2, HttpGet p url])"
proof -
  define a1 where "a1 = snd (attempt env url p w)"
  define b1 where "b1 = backoff p 3 0 a1"
  define a2 where "a2 = snd (attempt env url p b1)"
  define b2 where "b2 = backoff p 3 1 a2"
  define a3 where "a3 = snd (attempt env url p b2)"
  let ?f = "filter (\<lambda>ev. is_http_get ev \<or> is_backoff ev)"
  from attempt_trace[of env url p w] obtain e1 where e1:
    "log a1 = log w @ e1" "requests a1 = Suc (requests w)" "?f e1 = [HttpGet p url]"
    unfolding a1_def by blast
  have lb1: "log b1 = log a1 @ [Backoff p 1]" "requests b1 = requests a1"
    by (simp_all add: b1_def backoff_def emit_def)
  from attempt_trace[of env url p b1] obtain e2 where e2:
    "log a2 = log b1 @ e2" "requests a2 = Suc (requests b1)" "?f e2 = [HttpGet p url]"
    unfolding a2_def by blast
  have lb2: "log b2 = log a2 @ [Backoff p 2]" "requests b2 = requests a2"
    by (simp_all add: b2_def backoff_def emit_def)
  from attempt_trace[of env url p b2] obtain e3 where e3:
    "log a3 = log b2 @ e3" "requests a3 = Suc (requests b2)" "?f e3 = [HttpGet p url]"
    unfolding a3_def by blast
  have rq: "requests b1 = requests w + 1" "requests b2 = requests w + 2"
    using e1 lb1 e2 lb2 by simp_all
  from res run have rl: "retry_loop env url p 3 [0, 1, 2] w = (r, w')"
    by (simp add: download_cmip6_image_def max_retries_def range_three)
  show ?thesis
  proof (cases "attempt_ok env url p (requests w)")
    case True
    with rl have "r" "w' = a1"
      by (simp_all add: retry_loop_ok a1_def del: retry_loop.simps)
    with True e1 show ?thesis by (intro exI[of _ e1]) simp
  next
    case f1: False
    with rl have rl2: "retry_loop env url p 3 [1, 2] b1 = (r, w')"
      by (simp add: retry_loop_fail a1_def b1_def del: retry_loop.simps)
    show ?thesis
    proof (cases "attempt_ok env url p (requests w + 1)")
      case True
      with rl2 rq have "r" "w' = a2"
        by (simp_all add: retry_loop_ok a2_def del: retry_loop.simps)
      with True f1 e1 lb1 e2 show ?thesis
        by (intro exI[of _ "e1 @ [Backoff p 1] @ e2"]) simp
    next
      case f2: False
      with rl2 rq have rl3: "retry_loop env url p 3 [2] b2 = (r, w')"
        by (simp add: retry_loop_fail a2_def b2_def del: retry_loop.simps)
      show ?thesis
      proof (cases "attempt_ok env url p (requests w + 2)")
        case True
        with rl3 rq have "r" "w' = a3"
          by (simp_all add: retry_loop_ok a3_def del: retry_loop.simps)
        with True f1 f2 e1 lb1 e2 lb2 e3 show ?thesis
          by (intro exI[of _ "e1 @ [Backoff p 1] @ e2 @ [Backoff p 2] @ e3"]) simp
      next
        case f3: False
        with rl3 rq have "\<not> r" "w' = backoff p 3 2 a3"
          by (simp_all add: retry_loop_fail a3_def del: retry_loop.simps(2))
        then have "\<not> r" "w' = a3" by (simp_all add: backoff_def)
        with f1 f2 f3 e1 lb1 e2 lb2 e3 show ?thesis
          by (intro exI[of _ "e1 @ [Backoff p 1] @ e2 @ [Backoff p 2] @ e3"]) simp
      qed
    qed
  qed
qed

lemma retry_policy_cases:
  "(download_cmip6_image env image_id p w = (r, w') \<longrightarrow>
      (\<exists>evs k. log w' = log w @ evs \<and> requests w' = requests w + k
          \<and> length (filter is_http_get evs) = k \<and> k \<le> max_retries
          \<and> backoff_delays evs = map (\<lambda>retry. 2 ^ retry) [0..<(if r then k - 1 else min k 2)]
          \<and> sorted (backoff_delays evs)))
   \<and> max_retries = 3
   \<and> (resolve_download env image_id p = Inr url
        \<and> (\<forall>n. case http_get env n url of
                  HttpRaises e \<Rightarrow> True | HttpResponse status body \<Rightarrow> status \<noteq> 200)
      \<longrightarrow> download_cmip6_image env image_id p w =
            (False, w\<lparr>log := log w @ [HttpGet p url, Backoff p 1, HttpGet p url, Backoff p 2,
                                       HttpGet p url],
                      requests := requests w + 3\<rparr>))
   \<and> (resolve_download env image_id p = Inr url
        \<and> http_get env (requests w) url = HttpRaises e
        \<and> http_get env (Suc (requests w)) url = HttpResponse 200 (Inr content)
        \<and> content \<noteq> [] \<and> open_wb env p = None
      \<longrightarrow> download_cmip6_image env image_id p w =
            (True, w\<lparr>log := log w @ [HttpGet p url, Backoff p 1, HttpGet p url,
                                      FileWrite p content],
                     requests := requests w + 2,
                     files := (files w)(p \<mapsto> content)\<rparr>))
   \<and> (\<exists>w_end. export_cmip6_collection_parallel scenario_env (Inr scenario_listing) ''out''
                  default_max_concurrent default_batch_size empty_world
                = Some (\<lparr>total = 5, successful = 4, failed = 1\<rparr>, w_end)
          \<and> backoff_delays (log w_end) = [1, 2]
          \<and> filter (\<lambda>ev. event_path ev = Some ''out/CMIP6_image_2.tif'') (log w_end)
              = [HttpGet ''out/CMIP6_image_2.tif'' ''https://ee/img_2'',
                 Backoff ''out/CMIP6_image_2.tif'' 1,
                 HttpGet ''out/CMIP6_image_2.tif'' ''https://ee/img_2'',
                 Backoff ''out/CMIP6_image_2.tif'' 2,
                 HttpGet ''out/CMIP6_image_2.tif'' ''https://ee/img_2''])"
proof (intro conjI impI)
  assume "download_cmip6_image env image_id p w = (r, w')"
  then show "\<exists>evs k. log w' = log w @ evs \<and> requests w' = requests w + k
          \<and> length (filter is_http_get evs) = k \<and> k \<le> max_retries
          \<and> backoff_delays evs = map (\<lambda>retry. 2 ^ retry) [0..<(if r then k - 1 else min k 2)]
          \<and> sorted (backoff_delays evs)"
    by (rule download_log)
next
  show "max_retries = 3" by (simp add: max_retries_def)
next
  assume "resolve_download env image_id p = Inr url
        \<and> (\<forall>n. case http_get env n url of
                  HttpRaises e \<Rightarrow> True | HttpResponse status body \<Rightarrow> status \<noteq> 200)"
  then show "download_cmip6_image env image_id p w =
            (False, w\<lparr>log := log w @ [HttpGet p url, Backoff p 1, HttpGet p url, Backoff p 2,
                                       HttpGet p url],
                      requests := requests w + 3\<rparr>)"
    using download_all_fail by blast
next
  assume "resolve_download env image_id p = Inr url
        \<and> http_get env (requests w) url = HttpRaises e
        \<and> http_get env (Suc (requests w)) url = HttpResponse 200 (Inr content)
        \<and> content \<noteq> [] \<and> open_wb env p = None"
  then show "download_cmip6_image env image_id p w =
            (True, w\<lparr>log := log w @ [HttpGet p url, Backoff p 1, HttpGet p url,
                                      FileWrite p content],
                     requests := requests w + 2,
                     files := (files w)(p \<mapsto> content)\<rparr>)"
    using download_raise_then_ok by blast
next
  show "\<exists>w_end. export_cmip6_collection_parallel scenario_env (Inr scenario_listing) ''out''
                  default_max_concurrent default_batch_size empty_world
                = Some (\<lparr>total = 5, successful = 4, failed = 1\<rparr>, w_end)
          \<and> backoff_delays (log w_end) = [1, 2]
          \<and> filter (\<lambda>ev. event_path ev = Some ''out/CMIP6_image_2.tif'') (log w_end)
              = [HttpGet ''out/CMIP6_image_2.tif'' ''https://ee/img_2'',
                 Backoff ''out/CMIP6_image_2.tif'' 1,
                 HttpGet ''out/CMIP6_image_2.tif'' ''https://ee/img_2'',
                 Backoff ''out/CMIP6_image_2.tif'' 2,
                 HttpGet ''out/CMIP6_image_2.tif'' ''https://ee/img_2'']"
    by (simp add: scenario_b_run)
qed

text \<open>
  Claim C2. An attempt of \<open>download_cmip6_image\<close> returns \<open>True\<close> exactly when its
  request is answered with status 200, the file opens, and the body is read and is not
  empty; a request that raises, another status, \<open>open\<close> raising, a body that cannot be
  read and an empty file are failed attempts alike. Once the URL is resolved, the call
  goes through the requests numbered from \<open>requests w\<close> on: it stops with \<open>True\<close> at the
  first attempt that succeeds, among at most three; it sleeps 1 second after a failed
  first attempt and 2 seconds after a failed second one, each sleep between two
  requests, and nothing after the third; when the three attempts fail it returns
  \<open>False\<close>, having made three requests and slept 1 and 2 seconds. So the delays are
  \<open>2 ^ retry\<close> for \<open>retry = 0, 1\<close>, non-decreasing, and the call raises nothing: its
  result is a truth value. For the listing of five records whose third record always
  gets status 500, with the default batch size and permits, the counters are 5, 4 and
  1 and the only delays are 1 and 2, for the third record.
\<close>

theorem retry_policy:
  "(fst (attempt env url p w) = Inr True \<longleftrightarrow> attempt_ok env url p (requests w))
   \<and> (resolve_download env image_id p = Inr url
        \<and> download_cmip6_image env image_id p w = (r, w') \<longrightarrow>
       (\<exists>evs. log w' = log w @ evs \<and>
         (if attempt_ok env url p (requests w) then
            r \<and> requests w' = requests w + 1
            \<and> filter (\<lambda>ev. is_http_get ev \<or> is_backoff ev) evs = [HttpGet p url]
          else if attempt_ok env url p (requests w + 1) then
            r \<and> requests w' = requests w + 2
            \<and> filter (\<lambda>ev. is_http_get ev \<or> is_backoff ev) evs
                = [HttpGet p url, Backoff p 1, HttpGet p url]
          else if attempt_ok env url p (requests w + 2) then
            r \<and> requests w' = requests w + 3
            \<and> filter (\<lambda>ev. is_http_get ev \<or> is_backoff ev) evs
                = [HttpGet p url, Backoff p 1, HttpGet p url, Backoff p 2, HttpGet p url]
          else
            \<not> r \<and> requests w' = requests w + 3
            \<and> filter (\<lambda>ev. is_http_get ev \<or> is_backoff ev) evs
                = [HttpGet p url, Backoff p 1, HttpGet p url, Backoff p 2, HttpGet p url])))
   \<and> (download_cmip6_image env image_id p w = (r, w') \<longrightarrow>
      (\<exists>evs k. log w' = log w @ evs \<and> requests w' = requests w + k
          \<and> length (filter is_http_get evs) = k \<and> k \<le> max_retries
          \<and> backoff_delays evs = map (\<lambda>retry. 2 ^ retry) [0..<(if r then k - 1 else min k 2)]
          \<and> sorted (backoff_delays evs)))
   \<and> max_retries = 3
   \<and> (resolve_download env image_id p = Inr url
        \<and> (\<forall>n. case http_get env n url of
                  HttpRaises e \<Rightarrow> True | HttpResponse status body \<Rightarrow> status \<noteq> 200)
      \<longrightarrow> download_cmip6_image env image_id p w =
            (False, w\<lparr>log := log w @ [HttpGet p url, Backoff p 1, HttpGet p url, Backoff p 2,
                                       HttpGet p url],
                      requests := requests w + 3\<rparr>))
   \<and> (resolve_download env image_id p = Inr url
        \<and> http_get env (requests w) url = HttpRaises e
        \<and> http_get env (Suc (requests w)) url = HttpResponse 200 (Inr content)
        \<and> content \<noteq> [] \<and> open_wb env p = None
      \<longrightarrow> download_cmip6_image env image_id p w =
            (True, w\<lparr>log := log w @ [HttpGet p url, Backoff p 1, HttpGet p url,
                                      FileWrite p content],
                     requests := requests w + 2,
                     files := (files w)(p \<mapsto> content)\<rparr>))
   \<and> (\<exists>w_end. export_cmip6_collection_parallel scenario_env (Inr scenario_listing) ''out''
                  default_max_concurrent default_batch_size empty_world
                = Some (\<lparr>total = 5, successful = 4, failed = 1\<rparr>, w_end)
          \<and> backoff_delays (log w_end) = [1, 2]
          \<and> filter (\<lambda>ev. event_path ev = Some ''out/CMIP6_image_2.tif'') (log w_end)
              = [HttpGet ''out/CMIP6_image_2.tif'' ''https://ee/img_2'',
                 Backoff ''out/CMIP6_image_2.tif'' 1,
                 HttpGet ''out/CMIP6_image_2.tif'' ''https://ee/img_2'',
                 Backoff ''out/CMIP6_image_2.tif'' 2,
                 HttpGet ''out/CMIP6_image_2.tif'' ''https://ee/img_2''])"
proof -
  have a: "fst (attempt env url p w) = Inr True \<longleftrightarrow> attempt_ok env url p (requests w)"
    by (rule attempt_result)
  have b: "resolve_download env image_id p = Inr url
        \<and> download_cmip6_image env image_id p w = (r, w') \<longrightarrow>
       (\<exists>evs. log w' = log w @ evs \<and>
         (if attempt_ok env url p (requests w) then
            r \<and> requests w' = requests w + 1
            \<and> filter (\<lambda>ev. is_http_get ev \<or> is_backoff ev) evs = [HttpGet p url]
          else if attempt_ok env url p (requests w + 1) then
            r \<and> requests w' = requests w + 2
            \<and> filter (\<lambda>ev. is_http_get ev \<or> is_backoff ev) evs
                = [HttpGet p url, Backoff p 1, HttpGet p url]
          else if attempt_ok env url p (requests w + 2) then
            r \<and> requests w' = requests w + 3
            \<and> filter (\<lambda>ev. is_http_get ev \<or> is_backoff ev) evs
                = [HttpGet p url, Backoff p 1, HttpGet p url, Backoff p 2, HttpGet p url]
          else
            \<not> r \<and> requests w' = requests w + 3
            \<and> filter (\<lambda>ev. is_http_get ev \<or> is_backoff ev) evs
                = [HttpGet p url, Backoff p 1, HttpGet p url, Backoff p 2, HttpGet p url]))"
    using download_exact by blast
  show ?thesis
    using a b retry_policy_cases[of env image_id p w r w' url e content] by blast
qed

theorem retry_policy_witness:
  "resolve_download broken_env ''img_0'' ''out/CMIP6_image_0.tif'' = Inr ''https://ee/img_0''
   \<and> \<not> attempt_ok broken_env ''https://ee/img_0'' ''out/CMIP6_image_0.tif'' 0
   \<and> \<not> attempt_ok broken_env ''https://ee/img_0'' ''out/CMIP6_image_0.tif'' 1
   \<and> attempt_ok broken_env ''https://ee/img_0'' ''out/CMIP6_image_0.tif'' 2
   \<and> fst (download_cmip6_image broken_env ''img_0'' ''out/CMIP6_image_0.tif'' empty_world)
   \<and> requests (snd (download_cmip6_image broken_env ''img_0'' ''out/CMIP6_image_0.tif''
                      empty_world)) = 3
   \<and> filter (\<lambda>ev. is_http_get ev \<or> is_backoff ev)
        (log (snd (download_cmip6_image broken_env ''img_0'' ''out/CMIP6_image_0.tif''
                      empty_world)))
       = [HttpGet ''out/CMIP6_image_0.tif'' ''https://ee/img_0'',
          Backoff ''out/CMIP6_image_0.tif'' 1,
          HttpGet ''out/CMIP6_image_0.tif'' ''https://ee/img_0'',
          Backoff ''out/CMIP6_image_0.tif'' 2,
          HttpGet ''out/CMIP6_image_0.tif'' ''https://ee/img_0'']
   \<and> resolve_download scenario_env ''img_2'' ''out/CMIP6_image_2.tif'' = Inr ''https://ee/img_2''
   \<and> \<not> attempt_ok scenario_env ''https://ee/img_2'' ''out/CMIP6_image_2.tif'' 0
   \<and> \<not> attempt_ok scenario_env ''https://ee/img_2'' ''out/CMIP6_image_2.tif'' 1
   \<and> \<not> attempt_ok scenario_env ''https://ee/img_2'' ''out/CMIP6_image_2.tif'' 2
   \<and> \<not> fst (download_cmip6_image scenario_env ''img_2'' ''out/CMIP6_image_2.tif'' empty_world)
   \<and> requests (snd (download_cmip6_image scenario_env ''img_2'' ''out/CMIP6_image_2.tif''
                      empty_world)) = 3"
proof -
  let ?p0 = "''out/CMIP6_image_0.tif''" and ?u0 = "''https://ee/img_0''"
  let ?p2 = "''out/CMIP6_image_2.tif''" and ?u2 = "''https://ee/img_2''"
  let ?d0 = "download_cmip6_image broken_env ''img_0'' ?p0 empty_world"
  let ?d2 = "download_cmip6_image scenario_env ''img_2'' ?p2 empty_world"
  have r0: "resolve_download broken_env ''img_0'' ?p0 = Inr ?u0"
    by (simp add: resolve_download_def scenario_env_def broken_env_def)
  have k0: "\<not> attempt_ok broken_env ?u0 ?p0 0" "\<not> attempt_ok broken_env ?u0 ?p0 1"
    "attempt_ok broken_env ?u0 ?p0 2"
    by (simp_all add: attempt_ok_def broken_env_def scenario_env_def)
  have r2: "resolve_download scenario_env ''img_2'' ?p2 = Inr ?u2"
    by (simp add: resolve_download_def scenario_env_def)
  have k2: "\<not> attempt_ok scenario_env ?u2 ?p2 0" "\<not> attempt_ok scenario_env ?u2 ?p2 1"
    "\<not> attempt_ok scenario_env ?u2 ?p2 2"
    by (simp_all add: attempt_ok_def scenario_env_def)
  have z: "requests empty_world = 0" "log empty_world = []"
    by (simp_all add: empty_world_def)
  have q0: "attempt_ok broken_env ?u0 ?p0 (requests empty_world) = False"
    "attempt_ok broken_env ?u0 ?p0 (requests empty_world + 1) = False"
    "attempt_ok broken_env ?u0 ?p0 (requests empty_world + 2) = True"
    by (simp_all add: attempt_ok_def broken_env_def scenario_env_def empty_world_def)
  have q2: "attempt_ok scenario_env ?u2 ?p2 (requests empty_world) = False"
    "attempt_ok scenario_env ?u2 ?p2 (requests empty_world + 1) = False"
    "attempt_ok scenario_env ?u2 ?p2 (requests empty_world + 2) = False"
    by (simp_all add: attempt_ok_def scenario_env_def empty_world_def)
  from retry_policy[where env = broken_env and image_id = "''img_0''" and p = ?p0
        and url = ?u0 and w = empty_world and r = "fst ?d0" and w' = "snd ?d0"] r0
  obtain evs0 where l0: "log (snd ?d0) = log empty_world @ evs0"
    and c0: "if attempt_ok broken_env ?u0 ?p0 (requests empty_world) then
            fst ?d0 \<and> requests (snd ?d0) = requests empty_world + 1
            \<and> filter (\<lambda>ev. is_http_get ev \<or> is_backoff ev) evs0 = [HttpGet ?p0 ?u0]
          else if attempt_ok broken_env ?u0 ?p0 (requests empty_world + 1) then
            fst ?d0 \<and> requests (snd ?d0) = requests empty_world + 2
            \<and> filter (\<lambda>ev. is_http_get ev \<or> is_backoff ev) evs0
                = [HttpGet ?p0 ?u0, Backoff ?p0 1, HttpGet ?p0 ?u0]
          else if attempt_ok broken_env ?u0 ?p0 (requests empty_world + 2) then
            fst ?d0 \<and> requests (snd ?d0) = requests empty_world + 3
            \<and> filter (\<lambda>ev. is_http_get ev \<or> is_backoff ev) evs0
                = [HttpGet ?p0 ?u0, Backoff ?p0 1, HttpGet ?p0 ?u0, Backoff ?p0 2, HttpGet ?p0 ?u0]
          else
            \<not> fst ?d0 \<and> requests (snd ?d0) = requests empty_world + 3
            \<and> filter (\<lambda>ev. is_http_get ev \<or> is_backoff ev) evs0
                = [HttpGet ?p0 ?u0, Backoff ?p0 1, HttpGet ?p0 ?u0, Backoff ?p0 2, HttpGet ?p0 ?u0]"
    by auto
  from c0 have "fst ?d0 \<and> requests (snd ?d0) = requests empty_world + 3
            \<and> filter (\<lambda>ev. is_http_get ev \<or> is_backoff ev) evs0
                = [HttpGet ?p0 ?u0, Backoff ?p0 1, HttpGet ?p0 ?u0, Backoff ?p0 2, HttpGet ?p0 ?u0]"
    unfolding q0 by simp
  with l0 z have w0: "fst ?d0" "requests (snd ?d0) = 3"
    "filter (\<lambda>ev. is_http_get ev \<or> is_backoff ev) (log (snd ?d0))
       = [HttpGet ?p0 ?u0, Backoff ?p0 1, HttpGet ?p0 ?u0, Backoff ?p0 2, HttpGet ?p0 ?u0]"
    by simp_all
  from retry_policy[where env = scenario_env and image_id = "''img_2''" and p = ?p2
        and url = ?u2 and w = empty_world and r = "fst ?d2" and w' = "snd ?d2"] r2
  obtain evs2 where l2: "log (snd ?d2) = log empty_world @ evs2"
    and c2: "if attempt_ok scenario_env ?u2 ?p2 (requests empty_world) then
            fst ?d2 \<and> requests (snd ?d2) = requests empty_world + 1
            \<and> filter (\<lambda>ev. is_http_get ev \<or> is_backoff ev) evs2 = [HttpGet ?p2 ?u2]
          else if attempt_ok scenario_env ?u2 ?p2 (requests empty_world + 1) then
            fst ?d2 \<and> requests (snd ?d2) = requests empty_world + 2
            \<and> filter (\<lambda>ev. is_http_get ev \<or> is_backoff ev) evs2
                = [HttpGet ?p2 ?u2, Backoff ?p2 1, HttpGet ?p2 ?u2]
          else if attempt_ok scenario_env ?u2 ?p2 (requests empty_world + 2) then
            fst ?d2 \<and> requests (snd ?d2) = requests empty_world + 3
            \<and> filter (\<lambda>ev. is_http_get ev \<or> is_backoff ev) evs2
                = [HttpGet ?p2 ?u2, Backoff ?p2 1, HttpGet ?p2 ?u2, Backoff ?p2 2, HttpGet ?p2 ?u2]
          else
            \<not> fst ?d2 \<and> requests (snd ?d2) = requests empty_world + 3
            \<and> filter (\<lambda>ev. is_http_get ev \<or> is_backoff ev) evs2
                = [HttpGet ?p2 ?u2, Backoff ?p2 1, HttpGet ?p2 ?u2, Backoff ?p2 2, HttpGet ?p2 ?u2]"
    by auto
  from c2 have "\<not> fst ?d2 \<and> requests (snd ?d2) = requests empty_world + 3"
    unfolding q2 by simp
  with z have w2: "\<not> fst ?d2" "requests (snd ?d2) = 3"
    by simp_all
  from r0 k0 w0 r2 k2 w2 show ?thesis by blast
qed

subsection \<open>Error isolation between variables\<close>

















subsection \<open>The bound of the concurrency gate\<close>











subsection \<open>The plans of a slice\<close>

lemma item_plans_Cons_ok:
  "plan_path (utcoffset env) path b i info = Inr plan \<Longrightarrow>
   item_plans env path b ((i, info) # rest) = plan # item_plans env path b rest"
  by (simp add: item_plans_def map_filter_simps)

lemma item_plans_length:
  "plans_ok env path b items \<Longrightarrow> length (item_plans env path b items) = length items"
proof (induction items)
  case Nil
  show ?case by (simp add: item_plans_def map_filter_simps)
next
  case (Cons item rest)
  obtain i info where item: "item = (i, info)" by (cases item) auto
  from Cons.prems item obtain plan where
    p: "plan_path (utcoffset env) path b i info = Inr plan" and ok: "plans_ok env path b rest"
    by (auto simp: plans_ok_def split: sum.splits)
  from Cons.IH[OF ok] item_plans_Cons_ok[OF p, of rest] item show ?case by simp
qed

lemma item_plans_nth:
  "plans_ok env path b items \<Longrightarrow> j < length items \<Longrightarrow>
   plan_path (utcoffset env) path b (fst (items ! j)) (snd (items ! j))
     = Inr (item_plans env path b items ! j)"
proof (induction items arbitrary: j)
  case Nil
  then show ?case by simp
next
  case (Cons item rest)
  obtain i info where item: "item = (i, info)" by (cases item) auto
  from Cons.prems(1) item obtain plan where
    p: "plan_path (utcoffset env) path b i info = Inr plan" and ok: "plans_ok env path b rest"
    by (auto simp: plans_ok_def split: sum.splits)
  show ?case
  proof (cases j)
    case 0
    with p item item_plans_Cons_ok[OF p, of rest] show ?thesis by simp
  next
    case (Suc k)
    with Cons.prems(2) have "k < length rest" by simp
    from Cons.IH[OF ok this] Suc item item_plans_Cons_ok[OF p, of rest] show ?thesis by simp
  qed
qed

lemma slice_plans:
  assumes ok: "plans_ok env path 0 (enumerate_list images)"
  shows "item_plans env path b (enumerate_list (take k (drop b images)))
           = take k (drop b (item_plans env path 0 (enumerate_list images)))"
proof (rule nth_equalityI)
  have l0: "length (item_plans env path 0 (enumerate_list images)) = length images"
    using item_plans_length[OF ok] by (simp add: length_enumerate_list)
  have oks: "plans_ok env path b (enumerate_list (take k (drop b images)))"
    by (rule plans_ok_slice[OF ok])
  have ls: "length (item_plans env path b (enumerate_list (take k (drop b images))))
              = length (take k (drop b images))"
    using item_plans_length[OF oks] by (simp add: length_enumerate_list)
  show "length (item_plans env path b (enumerate_list (take k (drop b images))))
          = length (take k (drop b (item_plans env path 0 (enumerate_list images))))"
    using ls l0 by simp
  fix j assume "j < length (item_plans env path b (enumerate_list (take k (drop b images))))"
  with ls have j: "j < k" "b + j < length images" by auto
  then have js: "j < length (enumerate_list (take k (drop b images)))"
    by (simp add: length_enumerate_list)
  have jg: "b + j < length (enumerate_list images)"
    using j by (simp add: length_enumerate_list)
  from item_plans_nth[OF oks js] j
  have a: "plan_path (utcoffset env) path b j (images ! (b + j))
             = Inr (item_plans env path b (enumerate_list (take k (drop b images))) ! j)"
    by (simp add: enumerate_list_nth)
  from item_plans_nth[OF ok jg] j
  have b: "plan_path (utcoffset env) path 0 (b + j) (images ! (b + j))
             = Inr (item_plans env path 0 (enumerate_list images) ! (b + j))"
    by (simp add: enumerate_list_nth)
  from a b plan_path_shift[of "utcoffset env" path b j "images ! (b + j)"]
  have "item_plans env path b (enumerate_list (take k (drop b images))) ! j
          = item_plans env path 0 (enumerate_list images) ! (b + j)"
    by simp
  with j l0 show "item_plans env path b (enumerate_list (take k (drop b images))) ! j
          = take k (drop b (item_plans env path 0 (enumerate_list images))) ! j"
    by simp
qed

subsection \<open>What a fetch and a run of tasks touch\<close>

lemma attempt_local:
  "attempt env url p w = (res, w1) \<Longrightarrow>
   \<exists>evs. log w1 = log w @ evs \<and> (\<forall>ev \<in> set evs. event_path ev = Some p)
       \<and> (\<forall>q. q \<noteq> p \<longrightarrow> files w1 q = files w q)"
  by (auto simp: attempt_def Let_def emit_def path_exists_def getsize_def
           split: http_result.splits if_splits option.splits sum.splits)

lemma retry_loop_local:
  "retry_loop env url p m rs w = (r, w') \<Longrightarrow>
   \<exists>evs. log w' = log w @ evs \<and> (\<forall>ev \<in> set evs. event_path ev = Some p)
       \<and> (\<forall>q. q \<noteq> p \<longrightarrow> files w' q = files w q)"
proof (induction rs arbitrary: w)
  case Nil
  then show ?case by auto
next
  case (Cons retry rest)
  obtain res w1 where att: "attempt env url p w = (res, w1)" by (metis surj_pair)
  from attempt_local[OF att] obtain e1 where e1: "log w1 = log w @ e1"
    "\<forall>ev \<in> set e1. event_path ev = Some p" "\<forall>q. q \<noteq> p \<longrightarrow> files w1 q = files w q"
    by blast
  show ?case
  proof (cases "res = Inr True")
    case True
    with Cons.prems att have "w' = w1" by auto
    with e1 show ?thesis by blast
  next
    case False
    define w2 where "w2 = backoff p m retry w1"
    from False Cons.prems att have rest: "retry_loop env url p m rest w2 = (r, w')"
      by (cases res) (auto simp: w2_def split: bool.splits)
    from Cons.IH[OF rest] obtain e2 where e2: "log w' = log w2 @ e2"
      "\<forall>ev \<in> set e2. event_path ev = Some p" "\<forall>q. q \<noteq> p \<longrightarrow> files w' q = files w2 q"
      by blast
    have l2: "log w2 = log w1 @ (if retry < m - 1 then [Backoff p (2 ^ retry)] else [])"
      "files w2 = files w1"
      by (simp_all add: w2_def backoff_def emit_def)
    show ?thesis
    proof (intro exI[of _ "e1 @ (if retry < m - 1 then [Backoff p (2 ^ retry)] else []) @ e2"] conjI)
      show "log w' = log w @ e1 @ (if retry < m - 1 then [Backoff p (2 ^ retry)] else []) @ e2"
        using e1 e2 l2 by simp
      show "\<forall>ev \<in> set (e1 @ (if retry < m - 1 then [Backoff p (2 ^ retry)] else []) @ e2).
              event_path ev = Some p"
        using e1 e2 by auto
      show "\<forall>q. q \<noteq> p \<longrightarrow> files w' q = files w q"
        using e1 e2 l2 by simp
    qed
  qed
qed

lemma download_local:
  "download_cmip6_image env image_id p w = (r, w') \<Longrightarrow>
   \<exists>evs. log w' = log w @ evs \<and> (\<forall>ev \<in> set evs. event_path ev = Some p)
       \<and> (\<forall>q. q \<noteq> p \<longrightarrow> files w' q = files w q)"
  using retry_loop_local[of env _ p max_retries "[0..<max_retries]" w r w']
  by (cases "resolve_download env image_id p") (auto simp: download_cmip6_image_def)

lemma run_tasks_local:
  "run_tasks env tasks w = (rs, w') \<Longrightarrow>
   \<exists>evs. log w' = log w @ evs
       \<and> (\<forall>ev \<in> set evs. \<exists>t \<in> set tasks. event_path ev = Some (task_path t))
       \<and> (\<forall>q. q \<notin> task_path ` set tasks \<longrightarrow> files w' q = files w q)"
proof (induction tasks arbitrary: w rs w')
  case Nil
  then show ?case by simp
next
  case (Cons t ts)
  obtain r w1 where d: "download_cmip6_image env (task_image t) (task_path t) w = (r, w1)"
    by (metis surj_pair)
  obtain rs2 w2 where rt: "run_tasks env ts w1 = (rs2, w2)" by (metis surj_pair)
  from Cons.prems d rt have w': "w' = w2" by simp
  from download_local[OF d] obtain e1 where e1: "log w1 = log w @ e1"
    "\<forall>ev \<in> set e1. event_path ev = Some (task_path t)"
    "\<forall>q. q \<noteq> task_path t \<longrightarrow> files w1 q = files w q"
    by blast
  from Cons.IH[OF rt] obtain e2 where e2: "log w2 = log w1 @ e2"
    "\<forall>ev \<in> set e2. \<exists>t \<in> set ts. event_path ev = Some (task_path t)"
    "\<forall>q. q \<notin> task_path ` set ts \<longrightarrow> files w2 q = files w1 q"
    by blast
  show ?case
  proof (intro exI[of _ "e1 @ e2"] conjI)
    show "log w' = log w @ e1 @ e2" using e1 e2 w' by simp
    show "\<forall>ev \<in> set (e1 @ e2). \<exists>t \<in> set (t # ts). event_path ev = Some (task_path t)"
      using e1 e2 by auto
    show "\<forall>q. q \<notin> task_path ` set (t # ts) \<longrightarrow> files w' q = files w q"
      using e1 e2 w' by simp
  qed
qed

subsection \<open>A run over a destination that holds every file\<close>

lemma precheck_skips_files:
  "files v = files w \<Longrightarrow> precheck_skips v plan = precheck_skips w plan"
  by (simp add: precheck_skips_def split: prod.splits)

lemma skip_event_facts: "event_path (skip_event plan) = None \<and> is_skip (skip_event plan)"
  by (simp add: skip_event_def split: prod.splits)

lemma fold_slice_all_skipped:
  assumes "list_all (precheck_skips w0) (item_plans env path b (enumerate_list slice))"
  shows "fold_slice env path b slice st w0 =
           (st\<lparr>successful := successful st + length (item_plans env path b (enumerate_list slice))\<rparr>,
            w0\<lparr>log := log w0 @ map skip_event (item_plans env path b (enumerate_list slice))\<rparr>)"
proof -
  have f1: "filter (precheck_skips w0) (item_plans env path b (enumerate_list slice))
              = item_plans env path b (enumerate_list slice)"
    using assms by (simp add: list_all_iff)
  have f2: "filter (\<lambda>plan. \<not> precheck_skips w0 plan) (item_plans env path b (enumerate_list slice)) = []"
    using assms by (simp add: list_all_iff)
  show ?thesis
    by (simp add: fold_slice_def Let_def f1 f2)
qed

lemma fold_slices_all_skipped:
  "fold_slices env path bs images starts st v = (st', v') \<Longrightarrow>
   files v = files w \<Longrightarrow>
   \<forall>b \<in> set starts. list_all (precheck_skips w)
      (item_plans env path b
         (enumerate_list (take (min (b + bs) (length images) - b) (drop b images)))) \<Longrightarrow>
   failed st' = failed st \<and> total st' = total st \<and> files v' = files w
   \<and> requests v' = requests v
   \<and> (\<exists>evs. log v' = log v @ evs \<and> (\<forall>ev \<in> set evs. event_path ev = None)
          \<and> successful st' = successful st + length (filter is_skip evs))"
proof (induction starts arbitrary: st v)
  case Nil
  then show ?case by simp
next
  case (Cons b rest)
  define slice where "slice = take (min (b + bs) (length images) - b) (drop b images)"
  define plans where "plans = item_plans env path b (enumerate_list slice)"
  define v0 where "v0 = emit (BatchBegin (b div bs + 1) ((length images + bs - 1) div bs)) v"
  define st1 where "st1 = st\<lparr>successful := successful st + length plans\<rparr>"
  define v1 where "v1 = v0\<lparr>log := log v0 @ map skip_event plans\<rparr>"
  define v2 where "v2 = (if min (b + bs) (length images) < length images
                         then emit (Cooldown 1) v1 else v1)"
  have f0: "files v0 = files w" using Cons.prems(2) by (simp add: v0_def emit_def)
  have "list_all (precheck_skips w) plans"
    using Cons.prems(3) by (simp add: plans_def slice_def)
  then have all: "list_all (precheck_skips v0) plans"
    by (simp add: list_all_iff precheck_skips_files[OF f0])
  have fs: "fold_slice env path b slice st v0 = (st1, v1)"
    using fold_slice_all_skipped[OF all[unfolded plans_def], of st]
    by (simp add: st1_def v1_def plans_def)
  have "fold_slices env path bs images (b # rest) st v
          = fold_slices env path bs images rest st1 v2"
    unfolding fold_slices.simps Let_def slice_def[symmetric] v0_def[symmetric] fs
      v2_def by simp
  then have rest: "fold_slices env path bs images rest st1 v2 = (st', v')"
    using Cons.prems(1) by simp
  have f2: "files v2 = files w"
    using f0 by (simp add: v2_def v1_def emit_def)
  have r3: "\<forall>b \<in> set rest. list_all (precheck_skips w)
      (item_plans env path b
         (enumerate_list (take (min (b + bs) (length images) - b) (drop b images))))"
    using Cons.prems(3) by simp
  from Cons.IH[OF rest f2 r3] obtain evs where ih:
    "failed st' = failed st1" "total st' = total st1" "files v' = files w"
    "requests v' = requests v2" "log v' = log v2 @ evs"
    "\<forall>ev \<in> set evs. event_path ev = None"
    "successful st' = successful st1 + length (filter is_skip evs)"
    by blast
  define cd where "cd = (if min (b + bs) (length images) < length images
                         then [Cooldown 1] else [])"
  have l2: "log v2 = log v @ BatchBegin (b div bs + 1) ((length images + bs - 1) div bs)
                        # map skip_event plans @ cd"
    by (simp add: v2_def v1_def v0_def emit_def cd_def)
  have rq: "requests v2 = requests v"
    by (simp add: v2_def v1_def v0_def emit_def)
  have sk: "length (filter is_skip (map skip_event plans)) = length plans"
    by (simp add: filter_map o_def skip_event_facts)
  show ?case
  proof (intro conjI exI[of _ "BatchBegin (b div bs + 1) ((length images + bs - 1) div bs)
                        # map skip_event plans @ cd @ evs"])
    show "failed st' = failed st" using ih by (simp add: st1_def)
    show "total st' = total st" using ih by (simp add: st1_def)
    show "files v' = files w" using ih by simp
    show "requests v' = requests v" using ih rq by simp
    show "log v' = log v @ BatchBegin (b div bs + 1) ((length images + bs - 1) div bs)
                        # map skip_event plans @ cd @ evs"
      using ih l2 by simp
    show "\<forall>ev \<in> set (BatchBegin (b div bs + 1) ((length images + bs - 1) div bs)
                        # map skip_event plans @ cd @ evs). event_path ev = None"
      using ih by (auto simp: cd_def skip_event_facts)
    show "successful st' = successful st
            + length (filter is_skip (BatchBegin (b div bs + 1) ((length images + bs - 1) div bs)
                        # map skip_event plans @ cd @ evs))"
      using ih sk by (simp add: st1_def cd_def)
  qed
qed

text \<open>
  Claim C3. Let the destination hold, for every record of the listing, a file of more
  than 1024 bytes at the record's destination path, as a first run leaves it. Then a run
  over the same listing and directory, with a positive batch size and a permit, returns
  \<open>successful = total\<close> and \<open>failed = 0\<close>; it skips every record; it issues no request,
  sleeps no backoff and writes no file: the files and the count of requests are the
  ones it found, and every event it logs is the start of a batch, a skip or a cooldown.
\<close>

theorem second_run_skips_everything:
  assumes "0 < batch_size" and "0 < max_concurrent"
    and "plans_ok env path 0 (enumerate_list images_info)"
    and "list_all (precheck_skips w) (item_plans env path 0 (enumerate_list images_info))"
  shows "\<exists>w'. export_cmip6_collection_parallel env (Inr images_info) path max_concurrent
                 batch_size w
               = Some (\<lparr>total = length images_info, successful = length images_info,
                        failed = 0\<rparr>, w')
            \<and> files w' = files w \<and> requests w' = requests w
            \<and> (\<exists>evs. log w' = log w @ evs \<and> (\<forall>ev \<in> set evs. event_path ev = None)
                   \<and> length (filter is_skip evs) = length images_info)"
proof -
  define n where "n = length images_info"
  define starts where "starts = range_from 0 n (nat batch_size)"
  define st0 where "st0 = zero_stats\<lparr>total := n\<rparr>"
  obtain st w' where fs: "fold_slices env path (nat batch_size) images_info starts st0 w = (st, w')"
    by (metis surj_pair)
  have eb: "export_body env (Inr images_info) path max_concurrent batch_size w = (Normal, st, w')"
  proof (cases "images_info = []")
    case True
    with fs show ?thesis
      by (auto simp: export_body_def starts_def n_def st0_def zero_stats_def
            range_from.simps[of 0 0])
  next
    case False
    from export_body_exact[OF assms(3) assms(2) assms(1) False, of w] fs show ?thesis
      by (simp add: starts_def n_def st0_def)
  qed
  have slices: "\<forall>b \<in> set starts. list_all (precheck_skips w)
      (item_plans env path b
         (enumerate_list (take (min (b + nat batch_size) (length images_info) - b)
                            (drop b images_info))))"
  proof
    fix b assume "b \<in> set starts"
    have "set (take (min (b + nat batch_size) (length images_info) - b)
                 (drop b (item_plans env path 0 (enumerate_list images_info))))
            \<subseteq> set (item_plans env path 0 (enumerate_list images_info))"
      by (meson set_drop_subset set_take_subset subset_trans)
    with assms(4) show "list_all (precheck_skips w)
      (item_plans env path b
         (enumerate_list (take (min (b + nat batch_size) (length images_info) - b)
                            (drop b images_info))))"
      unfolding slice_plans[OF assms(3)] list_all_iff by blast
  qed
  from fold_slices_all_skipped[OF fs refl slices] obtain evs where r:
    "failed st = failed st0" "total st = total st0" "files w' = files w"
    "requests w' = requests w" "log w' = log w @ evs"
    "\<forall>ev \<in> set evs. event_path ev = None"
    "successful st = successful st0 + length (filter is_skip evs)"
    by blast
  from export_body_counts[OF eb assms(1)]
  have c: "total st = n" "successful st + failed st = n"
    by (simp_all add: n_def)
  have f0: "failed st = 0" "successful st0 = 0"
    using r(1) by (simp_all add: st0_def zero_stats_def)
  have st: "st = \<lparr>total = n, successful = n, failed = 0\<rparr>"
    using c f0 by (cases st) simp
  have sk: "length (filter is_skip evs) = n"
    using r(7) c f0 by simp
  have "export_cmip6_collection_parallel env (Inr images_info) path max_concurrent batch_size w
          = Some (\<lparr>total = n, successful = n, failed = 0\<rparr>, w')"
    using eb st by (simp add: export_cmip6_collection_parallel_def)
  with r(3,4,5,6) sk show ?thesis
    unfolding n_def by blast
qed

theorem second_run_skips_everything_witness:
  "(0::int) < 1 \<and> (0::int) < 3
   \<and> plans_ok scenario_env ''out'' 0 (enumerate_list (take 2 scenario_listing))
   \<and> list_all (precheck_skips full_world)
        (item_plans scenario_env ''out'' 0 (enumerate_list (take 2 scenario_listing)))
   \<and> (\<exists>w'. export_cmip6_collection_parallel scenario_env (Inr (take 2 scenario_listing))
               ''out'' 3 1 full_world
             = Some (\<lparr>total = 2, successful = 2, failed = 0\<rparr>, w')
          \<and> files w' = files full_world \<and> requests w' = 7
          \<and> filter (\<lambda>ev. event_path ev \<noteq> None) (log w') = []
          \<and> length (filter is_skip (log w')) = 2)"
proof -
  have l: "take 2 scenario_listing =
     [\<lparr>img_id = Some ''img_0'', img_properties = None\<rparr>,
      \<lparr>img_id = Some ''img_1'', img_properties = None\<rparr>]"
    by (simp add: scenario_listing_def upt_rec str_nat.simps digit_char_def)
  have ok: "plans_ok scenario_env ''out'' 0 (enumerate_list (take 2 scenario_listing))"
    by (simp add: l plans_ok_def enumerate_list_def upt_rec plan_path_def properties_of_def
          extract_date_def Let_def)
  have pl: "item_plans scenario_env ''out'' 0 (enumerate_list (take 2 scenario_listing))
              = [(''img_0'', ''CMIP6_image_0.tif'', ''out/CMIP6_image_0.tif''),
                 (''img_1'', ''CMIP6_image_1.tif'', ''out/CMIP6_image_1.tif'')]"
    unfolding l by code_simp
  have sk: "list_all (precheck_skips full_world)
        (item_plans scenario_env ''out'' 0 (enumerate_list (take 2 scenario_listing)))"
    unfolding pl by (simp add: precheck_skips_def full_world_def)
  have len: "length (take 2 scenario_listing) = 2"
    by (simp add: l)
  from second_run_skips_everything[OF _ _ ok sk, of 1 3] obtain w' evs where r:
    "export_cmip6_collection_parallel scenario_env (Inr (take 2 scenario_listing))
               ''out'' 3 1 full_world
             = Some (\<lparr>total = 2, successful = 2, failed = 0\<rparr>, w')"
    "files w' = files full_world" "requests w' = requests full_world"
    "log w' = log full_world @ evs" "\<forall>ev \<in> set evs. event_path ev = None"
    "length (filter is_skip evs) = 2"
    unfolding len by auto
  have lg: "log w' = evs" using r(4) by (simp add: full_world_def)
  have "filter (\<lambda>ev. event_path ev \<noteq> None) (log w') = []"
    unfolding lg using r(5) by (simp add: filter_empty_conv)
  moreover have "requests w' = 7" using r(3) by (simp add: full_world_def)
  ultimately show ?thesis
    using ok sk r(1,2,6) lg by auto
qed

end
